theory Spec2Isabelle
  imports Main "HOL-Library.Word"
begin

section \<open>The /stream relay of the chat server\<close>

text \<open>
  A shallow embedding of the streaming endpoint \<^verbatim>\<open>app.post('/stream', ...)\<close>: the decoding
  of the backend's chunked, newline-delimited body into records, the interpretation of each
  record, the word-group buffer for early speech, and the handler's effects on the output
  channel and the message store.

  JavaScript strings are sequences of 16-bit code units. The body is modelled after
  \<^verbatim>\<open>decoder.decode(chunk, {stream: true})\<close>: a list of the decoded \<^verbatim>\<open>chunkText\<close> values, whose
  concatenation is the decoded text of the whole body however the bytes were split.
\<close>

subsection \<open>Strings\<close>

type_synonym jschar = "16 word"
type_synonym jstring = "jschar list"

text \<open>ASCII literals as JavaScript strings.\<close>

definition js :: "string \<Rightarrow> jstring" where
  "js s = map of_char s"

definition LF :: jschar where "LF = 10"
definition CR :: jschar where "CR = 13"
definition SP :: jschar where "SP = 32"

text \<open>
  The characters matched by \<^verbatim>\<open>\s\<close> and stripped by \<^verbatim>\<open>String.prototype.trim\<close>: ECMAScript's
  WhiteSpace and LineTerminator code points.
\<close>

definition is_ws :: "jschar \<Rightarrow> bool" where
  "is_ws c \<longleftrightarrow>
     c = 0x09 \<or> c = 0x0A \<or> c = 0x0B \<or> c = 0x0C \<or> c = 0x0D \<or> c = 0x20 \<or> c = 0xA0 \<or>
     c = 0x1680 \<or> (0x2000 \<le> c \<and> c \<le> 0x200A) \<or> c = 0x2028 \<or> c = 0x2029 \<or>
     c = 0x202F \<or> c = 0x205F \<or> c = 0x3000 \<or> c = 0xFEFF"

text \<open>\<^verbatim>\<open>s.trim()\<close>\<close>

definition trim :: "jstring \<Rightarrow> jstring" where
  "trim s = rev (dropWhile is_ws (rev (dropWhile is_ws s)))"

subsection \<open>Chunk decoding: \<^verbatim>\<open>buffer.split(/\r?\n/)\<close> and \<^verbatim>\<open>parts.pop()\<close>\<close>

fun prepend :: "jschar \<Rightarrow> jstring list \<Rightarrow> jstring list" where
  "prepend c [] = [[c]]"
| "prepend c (p # ps) = (c # p) # ps"

text \<open>
  \<^verbatim>\<open>s.split(/\r?\n/)\<close>: scanning from the left, a line feed, or a carriage return directly
  followed by a line feed, ends the current part. The result is never empty.
\<close>

fun split_lines :: "jstring \<Rightarrow> jstring list" where
  "split_lines [] = [[]]"
| "split_lines [c] = (if c = LF then [[], []] else [[c]])"
| "split_lines (c # d # cs) =
     (if c = LF then [] # split_lines (d # cs)
      else if c = CR \<and> d = LF then [] # split_lines cs
      else prepend c (split_lines (d # cs)))"

text \<open>
  One turn of the read loop's decoding:
  \<^verbatim>\<open>buffer += chunkText; const parts = buffer.split(/\r?\n/); buffer = parts.pop();\<close>
  It returns the complete parts and the new buffer.
\<close>

definition decode :: "jstring \<Rightarrow> jstring \<Rightarrow> jstring list \<times> jstring" where
  "decode buffer chunkText =
     (let parts = split_lines (buffer @ chunkText)
      in (butlast parts, last parts))"

text \<open>The decoder run over a sequence of chunks, collecting the records of every call.\<close>

fun decode_all :: "jstring \<Rightarrow> jstring list \<Rightarrow> jstring list \<times> jstring" where
  "decode_all buffer [] = ([], buffer)"
| "decode_all buffer (chunkText # chunks) =
     (let (records, buffer') = decode buffer chunkText;
          (more, final) = decode_all buffer' chunks
      in (records @ more, final))"

text \<open>
  A body made of line-terminated records and a trailing fragment. A record is free of line
  feeds; one that is terminated by a bare line feed does not end in a carriage return (it
  would be the same text as a shorter record terminated by carriage return and line feed).
\<close>

datatype terminator = BareLF | CRLF

fun terminator_text :: "terminator \<Rightarrow> jstring" where
  "terminator_text BareLF = [LF]"
| "terminator_text CRLF = [CR, LF]"

fun stream_of :: "(jstring \<times> terminator) list \<Rightarrow> jstring \<Rightarrow> jstring" where
  "stream_of [] fragment = fragment"
| "stream_of ((r, t) # rs) fragment = r @ terminator_text t @ stream_of rs fragment"

fun record_ok :: "jstring \<times> terminator \<Rightarrow> bool" where
  "record_ok (r, t) = (LF \<notin> set r \<and> (t = BareLF \<longrightarrow> r = [] \<or> last r \<noteq> CR))"

subsection \<open>The speech buffer: word groups for early speech\<close>

text \<open>\<^verbatim>\<open>s.replace(/\s+/g, ' ')\<close>: every maximal run of whitespace becomes one space.\<close>

function collapse_ws :: "jstring \<Rightarrow> jstring" where
  "collapse_ws [] = []"
| "collapse_ws (c # cs) =
     (if is_ws c then SP # collapse_ws (dropWhile is_ws cs) else c # collapse_ws cs)"
  by pat_completeness auto
termination
  by (relation "measure length") (auto simp: length_dropWhile_le less_Suc_eq_le)

text \<open>Splitting at every element that satisfies \<open>P\<close>; \<^verbatim>\<open>s.split(' ')\<close> is the case of the space.\<close>

fun split_at :: "('a \<Rightarrow> bool) \<Rightarrow> 'a list \<Rightarrow> 'a list list" where
  "split_at P [] = [[]]"
| "split_at P (c # cs) =
     (if P c then [] # split_at P cs
      else (case split_at P cs of [] \<Rightarrow> [[c]] | p # ps \<Rightarrow> (c # p) # ps))"

definition split_sp :: "jstring \<Rightarrow> jstring list" where
  "split_sp s = split_at (\<lambda>c. c = SP) s"

text \<open>\<^verbatim>\<open>s.replace(/\s+/g, ' ').trim().split(' ').filter(Boolean)\<close>\<close>

definition js_words :: "jstring \<Rightarrow> jstring list" where
  "js_words s = filter (\<lambda>w. w \<noteq> []) (split_sp (trim (collapse_ws s)))"

text \<open>\<^verbatim>\<open>words.join(' ')\<close>\<close>

fun join_sp :: "jstring list \<Rightarrow> jstring" where
  "join_sp [] = []"
| "join_sp [w] = w"
| "join_sp (w # v # ws) = w @ SP # join_sp (v # ws)"

definition WORDS_THRESHOLD :: nat where
  "WORDS_THRESHOLD = 8"

text \<open>
  The loop \<^verbatim>\<open>while (words.length >= WORDS_THRESHOLD) { chunkWords = words.splice(0,
  WORDS_THRESHOLD); sentenceChunk = chunkWords.join(' '); ... }\<close>: the chunks emitted, in order,
  and the words left.
\<close>

function emit_groups :: "jstring list \<Rightarrow> jstring list \<times> jstring list" where
  "emit_groups words =
     (if length words \<ge> WORDS_THRESHOLD
      then (let (chunks, rest) = emit_groups (drop WORDS_THRESHOLD words)
            in (join_sp (take WORDS_THRESHOLD words) # chunks, rest))
      else ([], words))"
  by pat_completeness auto
termination
  by (relation "measure length") (auto simp: WORDS_THRESHOLD_def)

declare emit_groups.simps [simp del]

text \<open>
  What a token does to the speech buffer: \<^verbatim>\<open>speechBuffer += parsed.response\<close>, then the loop
  above, which sets \<^verbatim>\<open>speechBuffer = words.join(' ')\<close> at every emission. When no group is
  emitted the buffer keeps the raw text.
\<close>

definition absorb :: "jstring \<Rightarrow> jstring \<Rightarrow> jstring list \<times> jstring" where
  "absorb speechBuffer text =
     (let speechBuffer1 = speechBuffer @ text;
          words = js_words speechBuffer1
      in if length words \<ge> WORDS_THRESHOLD
         then (let (chunks, rest) = emit_groups words in (chunks, join_sp rest))
         else ([], speechBuffer1))"

text \<open>
  The flush at a done record and at the end of the body:
  \<^verbatim>\<open>const leftover = (speechBuffer || '').trim(); if (leftover) { ...; speechBuffer = ''; }\<close>
\<close>

definition flush :: "jstring \<Rightarrow> jstring option \<times> jstring" where
  "flush speechBuffer =
     (let leftover = trim speechBuffer
      in if leftover \<noteq> [] then (Some leftover, []) else (None, speechBuffer))"

text \<open>The speech buffer fed with a sequence of token texts, collecting the groups emitted.\<close>

fun absorb_all :: "jstring \<Rightarrow> jstring list \<Rightarrow> jstring list \<times> jstring" where
  "absorb_all speechBuffer [] = ([], speechBuffer)"
| "absorb_all speechBuffer (t # ts) =
     (let (groups, speechBuffer') = absorb speechBuffer t;
          (more, final) = absorb_all speechBuffer' ts
      in (groups @ more, final))"

text \<open>A text that is empty or begins with whitespace; one that is empty or ends in it.\<close>

fun starts_ws :: "jstring \<Rightarrow> bool" where
  "starts_ws [] = True"
| "starts_ws (c # cs) = is_ws c"

definition ends_ws :: "jstring \<Rightarrow> bool" where
  "ends_ws s \<longleftrightarrow> s = [] \<or> is_ws (last s)"

text \<open>
  No word straddles a token boundary: where a token is appended to the text \<open>pre\<close> of the
  tokens before it, the text ends in whitespace or the token begins with it.
\<close>

fun no_straddle :: "jstring \<Rightarrow> jstring list \<Rightarrow> bool" where
  "no_straddle pre [] = True"
| "no_straddle pre (t # ts) = ((ends_ws pre \<or> starts_ws t) \<and> no_straddle (pre @ t) ts)"

text \<open>
  The same at the speech buffer, as the handler holds it: where a token is appended, the
  buffer ends in whitespace or the token begins with it. After an emission the buffer is
  \<^verbatim>\<open>words.join(' ')\<close>, which has lost the whitespace that followed the last word.
\<close>

fun no_lost_space :: "jstring \<Rightarrow> jstring list \<Rightarrow> bool" where
  "no_lost_space speechBuffer [] = True"
| "no_lost_space speechBuffer (t # ts) =
     ((ends_ws speechBuffer \<or> starts_ws t) \<and> no_lost_space (snd (absorb speechBuffer t)) ts)"

subsection \<open>Effects of the handler\<close>

text \<open>
  A document of the message store, \<^verbatim>\<open>{ text, role, language, createdAt }\<close>; the timestamp
  is left out.
\<close>

datatype role = User | Assistant | System

record message =
  m_text :: jstring
  m_role :: role
  m_language :: jstring

text \<open>
  The events written to the channel: \<^verbatim>\<open>{token, language}\<close>, \<^verbatim>\<open>{sentence_partial, language}\<close>,
  \<^verbatim>\<open>{done: true}\<close> and \<^verbatim>\<open>{error}\<close>.
\<close>

datatype sse_event =
    Token jstring jstring
  | SentencePartial jstring jstring
  | DoneEvent
  | ErrorEvent jstring

text \<open>
  What the handler does to the outside, in order: \<open>Write\<close> is a \<^verbatim>\<open>res.write\<close> that returned,
  \<open>WriteRaised\<close> one that raised; \<open>Create\<close> is a \<^verbatim>\<open>Message.create\<close> that resolved,
  \<open>CreateRaised\<close> one that rejected; \<open>Fetch\<close> is the request to the backend; \<open>Warn\<close> is
  \<^verbatim>\<open>console.warn('Failed to parse line from Ollama stream:', line, e)\<close>; \<open>LogError\<close> is
  \<^verbatim>\<open>console.error('/stream error', err)\<close>; \<open>End\<close> is \<^verbatim>\<open>res.end()\<close>.
\<close>

datatype effect =
    Write sse_event
  | WriteRaised sse_event
  | Create message
  | CreateRaised message
  | Fetch
  | Warn jstring
  | LogError jstring
  | End

text \<open>
  What the handler reads of a parsed record: the text of \<^verbatim>\<open>parsed.response\<close> when it is truthy
  (a non-empty string of the backend's protocol) and the empty string otherwise, and the
  truth of \<^verbatim>\<open>parsed.done\<close>.
\<close>

record parsed =
  p_response :: jstring
  p_done :: bool

datatype 'a outcome = Raises jstring | Returns 'a

text \<open>
  The backend's answer: \<^verbatim>\<open>fetch\<close> raises, or the status is not a success (the message is the
  one built from status and body), or the body delivers its chunks and then either ends or
  raises while it is read.
\<close>

datatype fetch_result =
    FetchRaises jstring
  | NotOk jstring
  | Body "jstring list" "jstring option"

text \<open>
  Everything outside the handler that decides a run:
  \<^item> \<open>language_result\<close>: language detection and override, giving \<^verbatim>\<open>langCode\<close> and
    \<^verbatim>\<open>speechLang\<close>, or raising;
  \<^item> \<open>save_user_raises\<close>: the error of \<^verbatim>\<open>Message.create\<close> for the user's message, if it
    rejects;
  \<^item> \<open>context_raises\<close>: the error of building the prompt (reading the stores, formatting the
    date), if one is raised;
  \<^item> \<open>fetch_result\<close>: the backend's answer;
  \<^item> \<open>JSON_parse\<close>: \<^verbatim>\<open>JSON.parse\<close> followed by the reading of the two fields; \<open>None\<close> when
    either raises (a syntax error, or a \<^verbatim>\<open>null\<close> value);
  \<^item> \<open>write_raises\<close>: whether the next \<^verbatim>\<open>res.write\<close> of a token or sentence_partial event
    raises, given the effects so far. (A \<^verbatim>\<open>res.write\<close> of a string does not raise in Node;
    the handler nevertheless guards these writes, and the oracle says what happens if one
    does. The writes of the done and error events are taken to return.)
  \<^item> \<open>create_raises\<close>: the error of \<^verbatim>\<open>Message.create\<close> for an assistant's message that
    passes the schema's validation, if the store rejects it, given the effects so far.
\<close>

record env =
  language_result :: "(jstring \<times> jstring) outcome"
  save_user_raises :: "jstring option"
  context_raises :: "jstring option"
  fetch_result :: fetch_result
  JSON_parse :: "jstring \<Rightarrow> parsed option"
  write_raises :: "effect list \<Rightarrow> bool"
  create_raises :: "effect list \<Rightarrow> jstring option"

text \<open>The request body's \<^verbatim>\<open>prompt\<close>: absent, or a string.\<close>

record request =
  prompt :: "jstring option"

text \<open>The handler's variables, and the effects so far.\<close>

record state =
  buffer :: jstring
  fullReply :: jstring
  speechBuffer :: jstring
  trace :: "effect list"

datatype control = Continue | Returned

definition emit :: "effect \<Rightarrow> state \<Rightarrow> state" where
  "emit e st = st\<lparr>trace := trace st @ [e]\<rparr>"

text \<open>\<^verbatim>\<open>try { res.write(...) } catch (e) {}\<close>\<close>

definition try_write :: "env \<Rightarrow> sse_event \<Rightarrow> state \<Rightarrow> state" where
  "try_write env ev st =
     (if write_raises env (trace st) then emit (WriteRaised ev) st else emit (Write ev) st)"

definition assistant_message :: "jstring \<Rightarrow> state \<Rightarrow> message" where
  "assistant_message langCode st =
     \<lparr>m_text = fullReply st, m_role = Assistant, m_language = langCode\<rparr>"

text \<open>
  The schema of \<^verbatim>\<open>models/message.js\<close> has \<^verbatim>\<open>text: { type: String, required: true }\<close>, and a
  required string is rejected by the validation when it is empty: \<^verbatim>\<open>Message.create\<close> rejects
  a document with an empty text before anything reaches the store. (The user's message
  is the trimmed prompt, which the guard has found non-empty.)
\<close>

definition validation_error :: jstring where
  "validation_error = js ''Message validation failed''"

definition message_create :: "env \<Rightarrow> effect list \<Rightarrow> message \<Rightarrow> jstring option" where
  "message_create env tr msg =
     (if m_text msg = [] then Some validation_error else create_raises env tr)"

text \<open>The flush of the speech buffer with its guarded write.\<close>

definition flush_step :: "env \<Rightarrow> jstring \<Rightarrow> state \<Rightarrow> state" where
  "flush_step env speechLang st =
     (case flush (speechBuffer st) of
        (Some leftover, speechBuffer') \<Rightarrow>
          (try_write env (SentencePartial leftover speechLang) st)\<lparr>speechBuffer := speechBuffer'\<rparr>
      | (None, speechBuffer') \<Rightarrow> st)"

text \<open>
  The branch \<^verbatim>\<open>if (parsed.response) { ... }\<close> of the record loop. The token's write is not
  guarded on its own: if it raises, control leaves the branch for the \<^verbatim>\<open>catch\<close> of the
  enclosing \<^verbatim>\<open>try\<close> (the second component is then \<open>True\<close>) before anything is appended.
\<close>

definition token_step :: "env \<Rightarrow> jstring \<Rightarrow> jstring \<Rightarrow> state \<Rightarrow> state \<times> bool" where
  "token_step env speechLang r st =
     (if write_raises env (trace st) then (emit (WriteRaised (Token r speechLang)) st, True)
      else
        (let st1 = (emit (Write (Token r speechLang)) st)\<lparr>fullReply := fullReply st @ r\<rparr>;
             (groups, speechBuffer') = absorb (speechBuffer st1) r;
             st2 = foldl (\<lambda>s g. try_write env (SentencePartial g speechLang) s) st1 groups
         in (st2\<lparr>speechBuffer := speechBuffer'\<rparr>, False)))"

text \<open>
  The branch \<^verbatim>\<open>if (parsed.done) { ... }\<close>: flush, save the assistant's message, write the done
  event, end the response and return. A rejected \<^verbatim>\<open>Message.create\<close> is caught by the enclosing
  \<^verbatim>\<open>try\<close> of the record loop (the second component is then \<open>True\<close>).
\<close>

definition done_step :: "env \<Rightarrow> jstring \<times> jstring \<Rightarrow> state \<Rightarrow> state \<times> bool" where
  "done_step env lang st =
     (let st1 = flush_step env (snd lang) st;
          msg = assistant_message (fst lang) st1
      in case message_create env (trace st1) msg of
           Some e \<Rightarrow> (emit (CreateRaised msg) st1, True)
         | None \<Rightarrow> (emit End (emit (Write DoneEvent) (emit (Create msg) st1)), False))"

text \<open>
  The body of \<^verbatim>\<open>for (const part of parts)\<close>: trim, skip an empty line, parse, then the two
  branches; the \<^verbatim>\<open>catch\<close> warns and goes on with the next part.
\<close>

definition handle_part :: "env \<Rightarrow> jstring \<times> jstring \<Rightarrow> state \<Rightarrow> jstring \<Rightarrow> state \<times> control" where
  "handle_part env lang st part =
     (let line = trim part
      in if line = [] then (st, Continue)
         else
           (case JSON_parse env line of
              None \<Rightarrow> (emit (Warn line) st, Continue)
            | Some p \<Rightarrow>
                (let (st1, raised) =
                       (if p_response p \<noteq> [] then token_step env (snd lang) (p_response p) st
                        else (st, False))
                 in if raised then (emit (Warn line) st1, Continue)
                    else if p_done p then
                      (let (st2, raised2) = done_step env lang st1
                       in if raised2 then (emit (Warn line) st2, Continue) else (st2, Returned))
                    else (st1, Continue))))"

fun handle_parts :: "env \<Rightarrow> jstring \<times> jstring \<Rightarrow> state \<Rightarrow> jstring list \<Rightarrow> state \<times> control" where
  "handle_parts env lang st [] = (st, Continue)"
| "handle_parts env lang st (part # parts) =
     (case handle_part env lang st part of
        (st', Returned) \<Rightarrow> (st', Returned)
      | (st', Continue) \<Rightarrow> handle_parts env lang st' parts)"

text \<open>\<^verbatim>\<open>for await (const chunk of response.body)\<close>, over the chunks the body delivers.\<close>

fun read_body :: "env \<Rightarrow> jstring \<times> jstring \<Rightarrow> state \<Rightarrow> jstring list \<Rightarrow> state \<times> control" where
  "read_body env lang st [] = (st, Continue)"
| "read_body env lang st (chunkText # chunks) =
     (let (parts, buffer') = decode (buffer st) chunkText
      in case handle_parts env lang (st\<lparr>buffer := buffer'\<rparr>) parts of
           (st', Returned) \<Rightarrow> (st', Returned)
         | (st', Continue) \<Rightarrow> read_body env lang st' chunks)"

text \<open>
  The handler's outer \<^verbatim>\<open>catch(err)\<close>: log, write
  \<^verbatim>\<open>{ error: err.message || 'Unknown error' }\<close>, end the response.
\<close>

definition catch_handler :: "jstring \<Rightarrow> state \<Rightarrow> state" where
  "catch_handler message st =
     emit End
       (emit (Write (ErrorEvent (if message \<noteq> [] then message else js ''Unknown error'')))
          (emit (LogError message) st))"

text \<open>
  After the loop, \<^verbatim>\<open>if (buffer) { try { ... } catch (e) { /* ignore */ } }\<close>: the unterminated
  rest of the body is parsed as it is, and its token is written and appended; nothing is
  emitted from the speech buffer here.
\<close>

definition trailing_step :: "env \<Rightarrow> jstring \<Rightarrow> state \<Rightarrow> state" where
  "trailing_step env speechLang st =
     (if buffer st \<noteq> [] then
        (case JSON_parse env (buffer st) of
           None \<Rightarrow> st
         | Some p \<Rightarrow>
             if p_response p \<noteq> [] then
               (if write_raises env (trace st)
                then emit (WriteRaised (Token (p_response p) speechLang)) st
                else (emit (Write (Token (p_response p) speechLang)) st)
                       \<lparr>fullReply := fullReply st @ p_response p,
                        speechBuffer := speechBuffer st @ p_response p\<rparr>)
             else st)
      else st)"

text \<open>
  \<^verbatim>\<open>if (fullReply) { await Message.create(...) } res.end();\<close> A rejected
  \<^verbatim>\<open>Message.create\<close> reaches the outer \<^verbatim>\<open>catch\<close>.
\<close>

definition save_and_end :: "env \<Rightarrow> jstring \<Rightarrow> state \<Rightarrow> state" where
  "save_and_end env langCode st =
     (if fullReply st \<noteq> [] then
        (case message_create env (trace st) (assistant_message langCode st) of
           Some e \<Rightarrow> catch_handler e (emit (CreateRaised (assistant_message langCode st)) st)
         | None \<Rightarrow> emit End (emit (Create (assistant_message langCode st)) st))
      else emit End st)"

text \<open>
  The end of the body without a done record: the trailing rest, the flush, then the save
  and the end of the response.
\<close>

definition end_of_stream :: "env \<Rightarrow> jstring \<times> jstring \<Rightarrow> state \<Rightarrow> state" where
  "end_of_stream env lang st =
     save_and_end env (fst lang) (flush_step env (snd lang) (trailing_step env (snd lang) st))"

definition init_state :: state where
  "init_state = \<lparr>buffer = [], fullReply = [], speechBuffer = [], trace = []\<rparr>"

text \<open>
  The guard \<^verbatim>\<open>if (!userText?.trim()) { res.write(...{ error: 'Empty prompt' }...); return
  res.end(); }\<close>
\<close>

definition empty_prompt :: state where
  "empty_prompt = emit End (emit (Write (ErrorEvent (js ''Empty prompt''))) init_state)"

definition user_message :: "jstring \<Rightarrow> jstring \<Rightarrow> message" where
  "user_message trimmed langCode = \<lparr>m_text = trimmed, m_role = User, m_language = langCode\<rparr>"

text \<open>The \<^verbatim>\<open>try\<close> block of the handler, from language detection to the end of the body.\<close>

definition stream_body :: "env \<Rightarrow> jstring \<Rightarrow> state" where
  "stream_body env trimmed =
     (case language_result env of
        Raises e \<Rightarrow> catch_handler e init_state
      | Returns lang \<Rightarrow>
          (case save_user_raises env of
             Some e \<Rightarrow>
               catch_handler e (emit (CreateRaised (user_message trimmed (fst lang))) init_state)
           | None \<Rightarrow>
               (let st0 = emit (Create (user_message trimmed (fst lang))) init_state
                in case context_raises env of
                     Some e \<Rightarrow> catch_handler e st0
                   | None \<Rightarrow>
                       (let st1 = emit Fetch st0
                        in case fetch_result env of
                             FetchRaises e \<Rightarrow> catch_handler e st1
                           | NotOk e \<Rightarrow> catch_handler e st1
                           | Body chunks abort \<Rightarrow>
                               (case read_body env lang st1 chunks of
                                  (st2, Returned) \<Rightarrow> st2
                                | (st2, Continue) \<Rightarrow>
                                    (case abort of
                                       Some e \<Rightarrow> catch_handler e st2
                                     | None \<Rightarrow> end_of_stream env lang st2))))))"

text \<open>The handler of \<^verbatim>\<open>POST /stream\<close>; the result's \<open>trace\<close> is what the session did.\<close>

definition stream_handler :: "env \<Rightarrow> request \<Rightarrow> state" where
  "stream_handler env req =
     (case prompt req of
        None \<Rightarrow> empty_prompt
      | Some userText \<Rightarrow>
          if trim userText = [] then empty_prompt else stream_body env (trim userText))"

subsection \<open>Notions used to state and prove the properties\<close>

text \<open>The non-empty pieces between separators; \<open>js_words\<close> is the case of whitespace.\<close>

definition words_at :: "('a \<Rightarrow> bool) \<Rightarrow> 'a list \<Rightarrow> 'a list list" where
  "words_at P s = filter (\<lambda>w. w \<noteq> []) (split_at P s)"


text \<open>Classes of effects.\<close>

fun is_written :: "effect \<Rightarrow> bool" where
  "is_written (Write ev) = True"
| "is_written e = False"

fun is_terminal :: "effect \<Rightarrow> bool" where
  "is_terminal (Write DoneEvent) = True"
| "is_terminal (Write (ErrorEvent e)) = True"
| "is_terminal e = False"

fun is_error_write :: "effect \<Rightarrow> bool" where
  "is_error_write (Write (ErrorEvent e)) = True"
| "is_error_write e = False"

fun is_reply_create :: "effect \<Rightarrow> bool" where
  "is_reply_create (Create m) = (m_role m = Assistant)"
| "is_reply_create e = False"

fun is_warn :: "effect \<Rightarrow> bool" where
  "is_warn (Warn l) = True"
| "is_warn e = False"

fun is_log :: "effect \<Rightarrow> bool" where
  "is_log (Warn l) = True"
| "is_log (LogError e) = True"
| "is_log e = False"

text \<open>
  Records of the loop: one that does not parse, and one that parses to a token without the
  done flag; the token text of a record.
\<close>

definition malformed :: "env \<Rightarrow> jstring \<Rightarrow> bool" where
  "malformed env part \<longleftrightarrow> trim part \<noteq> [] \<and> JSON_parse env (trim part) = None"

definition token_bearing :: "env \<Rightarrow> jstring \<Rightarrow> bool" where
  "token_bearing env part \<longleftrightarrow>
     trim part \<noteq> [] \<and>
     (case JSON_parse env (trim part) of None \<Rightarrow> False | Some p \<Rightarrow> p_response p \<noteq> [] \<and> \<not> p_done p)"

definition token_text :: "env \<Rightarrow> jstring \<Rightarrow> jstring" where
  "token_text env part = (case JSON_parse env (trim part) of None \<Rightarrow> [] | Some p \<Rightarrow> p_response p)"

text \<open>Two states with the same variables and the same events written to the channel.\<close>

definition same_channel :: "state \<Rightarrow> state \<Rightarrow> bool" where
  "same_channel a b \<longleftrightarrow>
     buffer a = buffer b \<and> fullReply a = fullReply b \<and> speechBuffer a = speechBuffer b \<and>
     filter is_written (trace a) = filter is_written (trace b)"

text \<open>Once a terminal event is written, nothing more is written.\<close>

fun terminal_is_last :: "effect list \<Rightarrow> bool" where
  "terminal_is_last [] = True"
| "terminal_is_last (e # es) =
     ((is_terminal e \<longrightarrow> list_all (\<lambda>x. \<not> is_written x) es) \<and> terminal_is_last es)"

text \<open>The response is ended, once, and that is the last effect.\<close>

fun closed_last :: "effect list \<Rightarrow> bool" where
  "closed_last [] = False"
| "closed_last [e] = (e = End)"
| "closed_last (e # d # es) = (e \<noteq> End \<and> closed_last (d # es))"

text \<open>No message is written to the store after the response is ended.\<close>

fun is_create :: "effect \<Rightarrow> bool" where
  "is_create (Create m) = True"
| "is_create e = False"

fun saves_before_end :: "effect list \<Rightarrow> bool" where
  "saves_before_end [] = True"
| "saves_before_end (e # es) =
     ((e = End \<longrightarrow> list_all (\<lambda>x. \<not> is_create x) es) \<and> saves_before_end es)"

text \<open>
  Effects of a session that is still going on: token and sentence_partial writes, the
  user's message, the request to the backend, warnings, and attempts that raised.
\<close>

fun quiet :: "effect \<Rightarrow> bool" where
  "quiet (Write (Token t l)) = True"
| "quiet (Write (SentencePartial t l)) = True"
| "quiet (Write DoneEvent) = False"
| "quiet (Write (ErrorEvent e)) = False"
| "quiet (WriteRaised ev) = True"
| "quiet (Create m) = (m_role m = User)"
| "quiet (CreateRaised m) = True"
| "quiet Fetch = True"
| "quiet (Warn l) = True"
| "quiet (LogError e) = False"
| "quiet End = False"

definition grows :: "state \<Rightarrow> state \<Rightarrow> bool" where
  "grows st st' \<longleftrightarrow> (\<exists>xs. trace st' = trace st @ xs \<and> list_all quiet xs)"

definition done_from :: "jstring \<Rightarrow> state \<Rightarrow> state" where
  "done_from langCode mid =
     emit End (emit (Write DoneEvent) (emit (Create (assistant_message langCode mid)) mid))"

definition step_shape :: "jstring \<Rightarrow> state \<Rightarrow> state \<times> control \<Rightarrow> bool" where
  "step_shape langCode st r \<longleftrightarrow>
     (case snd r of
        Continue \<Rightarrow> grows st (fst r)
      | Returned \<Rightarrow>
          (\<exists>mid. grows st mid \<and> fullReply mid \<noteq> [] \<and> fst r = done_from langCode mid))"

definition ends :: "bool \<Rightarrow> state \<Rightarrow> state \<Rightarrow> bool" where
  "ends may_fail mid st' \<longleftrightarrow>
     (may_fail \<and> (\<exists>e. st' = catch_handler e mid)) \<or>
     (\<exists>l. fullReply mid \<noteq> [] \<and> st' = done_from l mid) \<or>
     (\<exists>l. fullReply mid \<noteq> [] \<and> st' = emit End (emit (Create (assistant_message l mid)) mid)) \<or>
     (fullReply mid = [] \<and> st' = emit End mid)"

definition closes :: "bool \<Rightarrow> state \<Rightarrow> state \<Rightarrow> bool" where
  "closes may_fail st st' \<longleftrightarrow> (\<exists>mid. grows st mid \<and> ends may_fail mid st')"

subsection \<open>Concrete sessions\<close>

text \<open>
  A parser that knows three records of the backend's protocol, an environment in which
  nothing outside the body fails, and a request with a prompt.
\<close>

definition demo_parse :: "jstring \<Rightarrow> parsed option" where
  \<open>demo_parse line =
     (if line = js ''{"response":"Hello "}'' then Some \<lparr>p_response = js ''Hello '', p_done = False\<rparr>
      else if line = js ''{"response":"world"}'' then Some \<lparr>p_response = js ''world'', p_done = False\<rparr>
      else if line = js ''{"done":true}'' then Some \<lparr>p_response = [], p_done = True\<rparr>
      else None)\<close>

definition demo_env :: "jstring list \<Rightarrow> jstring option \<Rightarrow> (effect list \<Rightarrow> bool) \<Rightarrow> env" where
  "demo_env chunks abort raises =
     \<lparr>language_result = Returns (js ''eng'', js ''en-US''),
      save_user_raises = None,
      context_raises = None,
      fetch_result = Body chunks abort,
      JSON_parse = demo_parse,
      write_raises = raises,
      create_raises = (\<lambda>tr. None)\<rparr>"

definition demo_request :: request where
  "demo_request = \<lparr>prompt = Some (js ''hi'')\<rparr>"

definition hello_line :: jstring where
  \<open>hello_line = js ''{"response":"Hello "}''\<close>

definition world_line :: jstring where
  \<open>world_line = js ''{"response":"world"}''\<close>

definition done_line :: jstring where
  \<open>done_line = js ''{"done":true}''\<close>

section \<open>The decoder\<close>

lemma CR_neq_LF [simp]: "CR \<noteq> LF" "LF \<noteq> CR"
  by (simp_all add: CR_def LF_def)

lemma split_lines_nonempty: "split_lines s \<noteq> []"
  by (induction s rule: split_lines.induct) (auto split: list.splits simp: neq_Nil_conv elim: prepend.elims)

lemma split_lines_LF: "split_lines (LF # s) = [] # split_lines s"
  by (cases s) auto

lemma split_lines_CRLF: "split_lines (CR # LF # s) = [] # split_lines s"
  by (simp add: CR_def LF_def)

lemma split_lines_single: "split_lines s = [p] \<Longrightarrow> p = s"
proof (induction s arbitrary: p rule: split_lines.induct)
  case 1
  then show ?case by simp
next
  case (2 c)
  then show ?case by (simp split: if_splits)
next
  case (3 c d cs)
  show ?case
  proof (cases "c = LF \<or> (c = CR \<and> d = LF)")
    case True
    with "3.prems" split_lines_nonempty show ?thesis by (auto split: if_splits)
  next
    case False
    obtain q qs where q: "split_lines (d # cs) = q # qs"
      using split_lines_nonempty by (cases "split_lines (d # cs)") auto
    with False "3.prems" have "qs = []" "p = c # q" by (auto split: if_splits)
    moreover from False q \<open>qs = []\<close> "3.IH"(3) have "q = d # cs" by auto
    ultimately show ?thesis by simp
  qed
qed

lemma split_lines_append:
  "split_lines (a @ x) = butlast (split_lines a) @ split_lines (last (split_lines a) @ x)"
proof (induction a rule: split_lines.induct)
  case 1
  then show ?case by simp
next
  case (2 c)
  then show ?case by (simp add: split_lines_LF)
next
  case (3 c d cs)
  obtain q qs where q: "split_lines (d # cs) = q # qs"
    using split_lines_nonempty by (cases "split_lines (d # cs)") auto
  show ?case
  proof (cases "c = LF")
    case True
    with 3 q show ?thesis by (simp add: split_lines_nonempty)
  next
    case nlf: False
    show ?thesis
    proof (cases "c = CR \<and> d = LF")
      case True
      with nlf 3 show ?thesis by (simp add: split_lines_nonempty)
    next
      case False
      have unf: "split_lines (c # d # r) = prepend c (split_lines (d # r))" for r
        using nlf False by auto
      have ih: "split_lines ((d # cs) @ x) =
          butlast (split_lines (d # cs)) @ split_lines (last (split_lines (d # cs)) @ x)"
        using 3(3) nlf False by blast
      show ?thesis
      proof (cases qs)
        case Nil
        with q have "q = d # cs" using split_lines_single by blast
        with Nil q show ?thesis by (simp add: unf del: split_lines.simps)
      next
        case (Cons r rs)
        with q ih show ?thesis by (simp add: unf del: split_lines.simps)
      qed
    qed
  qed
qed

lemma split_lines_no_LF: "LF \<notin> set s \<Longrightarrow> split_lines s = [s]"
  by (induction s rule: split_lines.induct) auto

lemma split_lines_parts_no_LF: "p \<in> set (split_lines s) \<Longrightarrow> LF \<notin> set p"
proof (induction s arbitrary: p rule: split_lines.induct)
  case 1
  then show ?case by simp
next
  case (2 c)
  then show ?case by (auto split: if_splits)
next
  case (3 c d cs)
  obtain q qs where q: "split_lines (d # cs) = q # qs"
    using split_lines_nonempty by (cases "split_lines (d # cs)") auto
  with 3 show ?case by (auto split: if_splits)
qed

lemma decode_buffer_no_LF: "LF \<notin> set (snd (decode buf chunkText))"
  using split_lines_parts_no_LF [of "last (split_lines (buf @ chunkText))" "buf @ chunkText"]
    split_lines_nonempty [of "buf @ chunkText"]
  by (simp add: decode_def Let_def)

lemma decode_all_eq:
  "LF \<notin> set buf \<Longrightarrow> decode_all buf chunks =
     (butlast (split_lines (buf @ concat chunks)), last (split_lines (buf @ concat chunks)))"
proof (induction chunks arbitrary: buf)
  case Nil
  then show ?case by (simp add: split_lines_no_LF)
next
  case (Cons chunk chunks)
  let ?b = "last (split_lines (buf @ chunk))"
  have b: "LF \<notin> set ?b"
    using decode_buffer_no_LF [of buf chunk] by (simp add: decode_def Let_def)
  have "split_lines (buf @ chunk @ concat chunks) =
        butlast (split_lines (buf @ chunk)) @ split_lines (?b @ concat chunks)"
    using split_lines_append [of "buf @ chunk" "concat chunks"] by simp
  then show ?case
    using Cons.IH [OF b] split_lines_nonempty [of "?b @ concat chunks"]
    by (simp add: decode_def Let_def butlast_append)
qed

lemma split_lines_record_LF:
  "LF \<notin> set r \<Longrightarrow> r = [] \<or> last r \<noteq> CR \<Longrightarrow> split_lines (r @ LF # s) = r # split_lines s"
proof (induction r rule: split_lines.induct)
  case 1
  then show ?case by (simp add: split_lines_LF)
next
  case (2 c)
  then show ?case by (simp add: split_lines_LF)
next
  case (3 c d cs)
  then show ?case by auto
qed

lemma split_lines_record_CRLF:
  "LF \<notin> set r \<Longrightarrow> split_lines (r @ CR # LF # s) = r # split_lines s"
proof (induction r rule: split_lines.induct)
  case 1
  then show ?case by (simp add: split_lines_CRLF)
next
  case (2 c)
  then show ?case by (auto simp add: split_lines_CRLF CR_def LF_def)
next
  case (3 c d cs)
  then show ?case by auto
qed

lemma split_lines_stream_of:
  "list_all record_ok records \<Longrightarrow> LF \<notin> set fragment \<Longrightarrow>
   split_lines (stream_of records fragment) = map fst records @ [fragment]"
proof (induction records)
  case Nil
  then show ?case by (simp add: split_lines_no_LF)
next
  case (Cons rt records)
  obtain r t where rt: "rt = (r, t)" by (cases rt)
  with Cons show ?case
    by (cases t) (auto simp: split_lines_record_LF split_lines_record_CRLF)
qed

section \<open>Words\<close>

lemma split_at_nonempty: "split_at P s \<noteq> []"
  by (induction s) (auto split: list.splits)

lemma split_at_Cons_other:
  "\<not> P c \<Longrightarrow> split_at P (c # s) = (c # hd (split_at P s)) # tl (split_at P s)"
  using split_at_nonempty [of P s] by (cases "split_at P s") auto

lemma split_at_append_sep: "P c \<Longrightarrow> split_at P (a @ c # b) = split_at P a @ split_at P b"
proof (induction a)
  case Nil
  then show ?case by simp
next
  case (Cons d a)
  show ?case
  proof (cases "P d")
    case True
    with Cons show ?thesis by simp
  next
    case False
    with Cons show ?thesis
      by (simp add: split_at_Cons_other split_at_nonempty del: split_at.simps)
  qed
qed

lemma words_at_sep: "P c \<Longrightarrow> words_at P (c # s) = words_at P s"
  by (simp add: words_at_def)

lemma words_at_append_sep: "P c \<Longrightarrow> words_at P (a @ c # b) = words_at P a @ words_at P b"
  by (simp add: words_at_def split_at_append_sep)

lemma words_at_append:
  "b = [] \<or> P (hd b) \<Longrightarrow> words_at P (a @ b) = words_at P a @ words_at P b"
proof (cases b)
  case Nil
  then show ?thesis by (simp add: words_at_def)
next
  case (Cons c b')
  assume "b = [] \<or> P (hd b)"
  with Cons have "P c" by simp
  with Cons show ?thesis by (simp add: words_at_append_sep words_at_sep)
qed

lemma words_at_all_sep: "\<forall>c\<in>set s. P c \<Longrightarrow> words_at P s = []"
  by (induction s) (auto simp: words_at_def)

lemma words_at_Nil_iff: "words_at P s = [] \<longleftrightarrow> (\<forall>c\<in>set s. P c)"
proof (induction s)
  case Nil
  then show ?case by (simp add: words_at_def)
next
  case (Cons c s)
  then show ?case by (auto simp: words_at_def split: list.splits)
qed

lemma words_at_dropWhile: "words_at P (dropWhile P s) = words_at P s"
  by (induction s) (auto simp: words_at_sep)

lemma words_at_drop_trailing: "words_at P (rev (dropWhile P (rev s))) = words_at P s"
proof -
  have s: "s = rev (dropWhile P (rev s)) @ rev (takeWhile P (rev s))"
    by (metis rev_append rev_rev_ident takeWhile_dropWhile_id)
  have "\<forall>c\<in>set (rev (takeWhile P (rev s))). P c"
    by (auto dest: set_takeWhileD)
  then have t: "words_at P (rev (takeWhile P (rev s))) = []"
    by (rule words_at_all_sep)
  have "rev (takeWhile P (rev s)) = [] \<or> P (hd (rev (takeWhile P (rev s))))"
    using \<open>\<forall>c\<in>set (rev (takeWhile P (rev s))). P c\<close>
    by (cases "rev (takeWhile P (rev s))") auto
  then have "words_at P (rev (dropWhile P (rev s)) @ rev (takeWhile P (rev s))) =
      words_at P (rev (dropWhile P (rev s))) @ words_at P (rev (takeWhile P (rev s)))"
    by (rule words_at_append)
  with t s show ?thesis by simp
qed

lemma split_at_cong: "(\<forall>c\<in>set s. P c = Q c) \<Longrightarrow> split_at P s = split_at Q s"
  by (induction s) simp_all






lemma is_ws_SP [simp]: "is_ws SP"
  by (simp add: is_ws_def SP_def)


lemma collapse_ws_only_SP: "c \<in> set (collapse_ws s) \<Longrightarrow> is_ws c \<Longrightarrow> c = SP"
proof (induction s rule: collapse_ws.induct)
  case 1
  then show ?case by simp
next
  case (2 d cs)
  show ?case
  proof (cases "is_ws d")
    case True
    with 2 show ?thesis by auto
  next
    case False
    with 2 show ?thesis by auto
  qed
qed

lemma words_at_Cons_eq:
  assumes "\<not> P c" and "hd (split_at P a) = hd (split_at P b)"
    and "filter (\<lambda>w. w \<noteq> []) (tl (split_at P a)) = filter (\<lambda>w. w \<noteq> []) (tl (split_at P b))"
  shows "hd (split_at P (c # a)) = hd (split_at P (c # b))"
    and "filter (\<lambda>w. w \<noteq> []) (tl (split_at P (c # a))) = filter (\<lambda>w. w \<noteq> []) (tl (split_at P (c # b)))"
proof -
  obtain p ps where a: "split_at P a = p # ps"
    using split_at_nonempty by (cases "split_at P a") auto
  obtain q qs where b: "split_at P b = q # qs"
    using split_at_nonempty by (cases "split_at P b") auto
  from assms a b show "hd (split_at P (c # a)) = hd (split_at P (c # b))" by simp
  from assms a b show "filter (\<lambda>w. w \<noteq> []) (tl (split_at P (c # a))) = filter (\<lambda>w. w \<noteq> []) (tl (split_at P (c # b)))"
    by simp
qed

lemma words_at_hd_tl:
  "words_at P s = filter (\<lambda>w. w \<noteq> []) [hd (split_at P s)] @ filter (\<lambda>w. w \<noteq> []) (tl (split_at P s))"
  using split_at_nonempty [of P s] by (cases "split_at P s") (auto simp: words_at_def)

lemma collapse_ws_split:
  "hd (split_at is_ws (collapse_ws s)) = hd (split_at is_ws s) \<and>
   filter (\<lambda>w. w \<noteq> []) (tl (split_at is_ws (collapse_ws s))) = filter (\<lambda>w. w \<noteq> []) (tl (split_at is_ws s))"
proof (induction s rule: collapse_ws.induct)
  case 1
  then show ?case by simp
next
  case (2 c cs)
  show ?case
  proof (cases "is_ws c")
    case True
    with 2 have "words_at is_ws (collapse_ws (dropWhile is_ws cs)) = words_at is_ws (dropWhile is_ws cs)"
      by (simp add: words_at_hd_tl)
    then have "words_at is_ws (collapse_ws (dropWhile is_ws cs)) = words_at is_ws cs"
      by (simp add: words_at_dropWhile)
    with True show ?thesis by (simp add: words_at_def)
  next
    case False
    with 2 words_at_Cons_eq [of is_ws c "collapse_ws cs" cs] show ?thesis by simp
  qed
qed

lemma words_at_collapse_ws: "words_at is_ws (collapse_ws s) = words_at is_ws s"
  using collapse_ws_split [of s] by (simp add: words_at_hd_tl)

lemma words_at_trim: "words_at is_ws (trim s) = words_at is_ws s"
  by (simp add: trim_def words_at_drop_trailing words_at_dropWhile)

lemma set_trim: "set (trim s) \<subseteq> set s"
proof
  fix c assume "c \<in> set (trim s)"
  then have "c \<in> set (dropWhile is_ws (rev (dropWhile is_ws s)))" by (simp add: trim_def)
  then have "c \<in> set (dropWhile is_ws s)" using set_dropWhileD by fastforce
  then show "c \<in> set s" by (rule set_dropWhileD)
qed

lemma js_words_eq: "js_words s = words_at is_ws s"
proof -
  have "\<forall>c\<in>set (trim (collapse_ws s)). (c = SP) = is_ws c"
    using set_trim [of "collapse_ws s"] collapse_ws_only_SP [of _ s] by auto
  then have "split_sp (trim (collapse_ws s)) = split_at is_ws (trim (collapse_ws s))"
    unfolding split_sp_def by (rule split_at_cong)
  then have "js_words s = words_at is_ws (trim (collapse_ws s))"
    by (simp add: js_words_def words_at_def)
  then show ?thesis by (simp add: words_at_trim words_at_collapse_ws)
qed

section \<open>The speech buffer\<close>














lemma starts_ws_no_straddle: "list_all starts_ws ts \<Longrightarrow> no_straddle pre ts"
  by (induction ts arbitrary: pre) simp_all

lemma starts_ws_no_lost_space: "list_all starts_ws ts \<Longrightarrow> no_lost_space sb ts"
  by (induction ts arbitrary: sb) simp_all

lemma trim_Nil_iff: "trim s = [] \<longleftrightarrow> js_words s = []"
proof -
  let ?d = "dropWhile is_ws s"
  have a: "?d = []" if "\<forall>c\<in>set ?d. is_ws c"
  proof (rule ccontr)
    assume ne: "?d \<noteq> []"
    then have "\<not> is_ws (hd ?d)" by (rule hd_dropWhile)
    with ne that show False by simp
  qed
  have "trim s = [] \<longleftrightarrow> dropWhile is_ws (rev ?d) = []"
    by (simp add: trim_def)
  also have "\<dots> \<longleftrightarrow> (\<forall>c\<in>set ?d. is_ws c)"
    by (simp only: dropWhile_eq_Nil_conv set_rev)
  also have "\<dots> \<longleftrightarrow> ?d = []"
  proof
    assume "\<forall>c\<in>set ?d. is_ws c"
    then show "?d = []" by (rule a)
  next
    assume e: "?d = []"
    show "\<forall>c\<in>set ?d. is_ws c" unfolding e by simp
  qed
  also have "\<dots> \<longleftrightarrow> (\<forall>c\<in>set s. is_ws c)"
    by (simp only: dropWhile_eq_Nil_conv)
  finally show ?thesis by (simp only: js_words_eq words_at_Nil_iff)
qed

lemma js_words_Nil [simp]: "js_words [] = []"
  by (simp add: js_words_eq words_at_def)

lemma js_words_trim: "js_words (trim s) = js_words s"
  by (simp add: js_words_eq words_at_trim)

section \<open>The shape of a session's effects\<close>

lemma grows_refl [simp]: "grows st st"
  by (simp add: grows_def)

lemma grows_trans: "grows a b \<Longrightarrow> grows b c \<Longrightarrow> grows a c"
  by (auto simp: grows_def)

lemma grows_emit: "quiet e \<Longrightarrow> grows st (emit e st)"
  by (simp add: grows_def emit_def)

lemma grows_try_write_partial: "grows st (try_write env (SentencePartial t l) st)"
  by (simp add: try_write_def grows_emit)

lemma fullReply_emit [simp]: "fullReply (emit e st) = fullReply st"
  by (simp add: emit_def)

lemma fullReply_try_write [simp]: "fullReply (try_write env ev st) = fullReply st"
  by (simp add: try_write_def)

lemma flush_step_eq:
  "flush_step env l st =
     (case fst (flush (speechBuffer st)) of
        None \<Rightarrow> st
      | Some g \<Rightarrow> (try_write env (SentencePartial g l) st)\<lparr>speechBuffer := snd (flush (speechBuffer st))\<rparr>)"
  by (cases "flush (speechBuffer st)") (simp add: flush_step_def split: option.splits)

lemma grows_flush_step: "grows st (flush_step env l st)"
proof (cases "fst (flush (speechBuffer st))")
  case None
  then show ?thesis by (simp add: flush_step_eq)
next
  case (Some g)
  have "grows st (try_write env (SentencePartial g l) st)" by (rule grows_try_write_partial)
  then have "grows st ((try_write env (SentencePartial g l) st)\<lparr>speechBuffer := b\<rparr>)" for b
    by (simp add: grows_def)
  with Some show ?thesis by (simp add: flush_step_eq)
qed

lemma fullReply_flush_step [simp]: "fullReply (flush_step env l st) = fullReply st"
  by (simp add: flush_step_eq split: option.splits)

lemma grows_foldl_partials:
  "grows st (foldl (\<lambda>s g. try_write env (SentencePartial g l) s) st groups)"
proof (induction groups arbitrary: st)
  case Nil
  then show ?case by simp
next
  case (Cons g groups)
  have "grows st (try_write env (SentencePartial g l) st)" by (rule grows_try_write_partial)
  with Cons [of "try_write env (SentencePartial g l) st"] show ?case
    by (auto intro: grows_trans)
qed

lemma fullReply_foldl_partials [simp]:
  "fullReply (foldl (\<lambda>s g. try_write env (SentencePartial g l) s) st groups) = fullReply st"
  by (induction groups arbitrary: st) simp_all

lemma grows_token_step: "grows st (fst (token_step env l r st))"
proof (cases "write_raises env (trace st)")
  case True
  then show ?thesis by (simp add: token_step_def grows_emit)
next
  case False
  let ?st1 = "(emit (Write (Token r l)) st)\<lparr>fullReply := fullReply st @ r\<rparr>"
  have a: "grows st ?st1" by (simp add: grows_def emit_def)
  have b: "grows ?st1 (foldl (\<lambda>s g. try_write env (SentencePartial g l) s) ?st1 groups)" for groups
    by (rule grows_foldl_partials)
  have c: "grows x (x\<lparr>speechBuffer := sb\<rparr>)" for x sb by (simp add: grows_def)
  from False show ?thesis
    by (auto simp: token_step_def Let_def split_beta intro: grows_trans [OF a] grows_trans [OF b] c)
qed

lemma message_create_reply:
  "fullReply st \<noteq> [] \<Longrightarrow> message_create env tr (assistant_message l st) = create_raises env tr"
  by (simp add: message_create_def assistant_message_def)

lemma message_create_None:
  "message_create env tr (assistant_message l st) = None \<Longrightarrow> fullReply st \<noteq> []"
  by (simp add: message_create_def assistant_message_def split: if_splits)

lemma done_step_shape:
  "(snd (done_step env lang st) \<longrightarrow> grows st (fst (done_step env lang st))) \<and>
   (\<not> snd (done_step env lang st) \<longrightarrow>
      (\<exists>mid. grows st mid \<and> fullReply mid = fullReply st \<and> fullReply mid \<noteq> [] \<and>
         fst (done_step env lang st) = done_from (fst lang) mid))"
proof -
  let ?st1 = "flush_step env (snd lang) st"
  let ?msg = "assistant_message (fst lang) ?st1"
  have g: "grows st ?st1" by (rule grows_flush_step)
  show ?thesis
  proof (cases "message_create env (trace ?st1) ?msg")
    case None
    then have "fullReply ?st1 \<noteq> []" by (rule message_create_None)
    moreover from None have "done_step env lang st = (done_from (fst lang) ?st1, False)"
      by (simp add: done_step_def Let_def done_from_def)
    ultimately show ?thesis using g by auto
  next
    case (Some e)
    have "grows ?st1 (emit (CreateRaised ?msg) ?st1)" by (simp add: grows_emit)
    with g have "grows st (emit (CreateRaised ?msg) ?st1)" by (rule grows_trans)
    moreover from Some have "done_step env lang st = (emit (CreateRaised ?msg) ?st1, True)"
      by (simp add: done_step_def Let_def)
    ultimately show ?thesis by simp
  qed
qed

lemma handle_part_shape: "step_shape (fst lang) st (handle_part env lang st part)"
proof -
  let ?line = "trim part"
  show ?thesis
  proof (cases "?line = []")
    case True
    then show ?thesis by (simp add: handle_part_def step_shape_def)
  next
    case ne: False
    show ?thesis
    proof (cases "JSON_parse env ?line")
      case None
      with ne show ?thesis by (simp add: handle_part_def step_shape_def grows_emit)
    next
      case (Some p)
      let ?t = "if p_response p \<noteq> [] then token_step env (snd lang) (p_response p) st else (st, False)"
      have g1: "grows st (fst ?t)" by (simp add: grows_token_step)
      show ?thesis
      proof (cases "snd ?t")
        case True
        have "grows (fst ?t) (emit (Warn ?line) (fst ?t))" by (simp add: grows_emit)
        with g1 have "grows st (emit (Warn ?line) (fst ?t))" by (rule grows_trans)
        with ne Some True show ?thesis
          by (simp add: handle_part_def step_shape_def Let_def split_beta)
      next
        case nr: False
        show ?thesis
        proof (cases "p_done p")
          case False
          with ne Some nr g1 show ?thesis
            by (simp add: handle_part_def step_shape_def Let_def split_beta)
        next
          case True
          let ?d = "done_step env lang (fst ?t)"
          note d = done_step_shape [of env lang "fst ?t"]
          show ?thesis
          proof (cases "snd ?d")
            case True
            with d have "grows (fst ?t) (fst ?d)" by simp
            with g1 have "grows st (fst ?d)" by (rule grows_trans)
            moreover have "grows (fst ?d) (emit (Warn ?line) (fst ?d))" by (simp add: grows_emit)
            ultimately have "grows st (emit (Warn ?line) (fst ?d))" by (rule grows_trans)
            with ne Some nr \<open>p_done p\<close> True show ?thesis
              by (simp add: handle_part_def step_shape_def Let_def split_beta)
          next
            case False
            with d obtain mid where "grows (fst ?t) mid" "fullReply mid \<noteq> []"
              "fst ?d = done_from (fst lang) mid" by auto
            with g1 have "\<exists>mid. grows st mid \<and> fullReply mid \<noteq> [] \<and> fst ?d = done_from (fst lang) mid"
              by (auto intro: grows_trans)
            with ne Some nr \<open>p_done p\<close> False show ?thesis
              by (simp add: handle_part_def step_shape_def Let_def split_beta)
          qed
        qed
      qed
    qed
  qed
qed

lemma step_shape_trans:
  "grows st st1 \<Longrightarrow> step_shape l st1 r \<Longrightarrow> step_shape l st r"
  by (auto simp: step_shape_def split: control.splits intro: grows_trans)

lemma handle_parts_shape: "step_shape (fst lang) st (handle_parts env lang st parts)"
proof (induction parts arbitrary: st)
  case Nil
  then show ?case by (simp add: step_shape_def)
next
  case (Cons part parts)
  obtain st' c where h: "handle_part env lang st part = (st', c)" by (cases "handle_part env lang st part")
  note s = handle_part_shape [of lang st env part]
  show ?case
  proof (cases c)
    case Continue
    with h s have "grows st st'" by (simp add: step_shape_def)
    with Cons [of st'] h Continue show ?thesis by (simp add: step_shape_trans)
  next
    case Returned
    with h s show ?thesis by simp
  qed
qed

lemma read_body_shape: "step_shape (fst lang) st (read_body env lang st chunks)"
proof (induction chunks arbitrary: st)
  case Nil
  then show ?case by (simp add: step_shape_def)
next
  case (Cons chunkText chunks)
  let ?st0 = "st\<lparr>buffer := snd (decode (buffer st) chunkText)\<rparr>"
  let ?parts = "fst (decode (buffer st) chunkText)"
  have g0: "grows st ?st0" by (simp add: grows_def)
  obtain st' c where h: "handle_parts env lang ?st0 ?parts = (st', c)"
    by (cases "handle_parts env lang ?st0 ?parts")
  note s = handle_parts_shape [of lang ?st0 env ?parts]
  show ?case
  proof (cases c)
    case Continue
    with h s have "grows ?st0 st'" by (simp add: step_shape_def)
    with g0 have "grows st st'" by (rule grows_trans)
    with Cons [of st'] h Continue show ?thesis by (simp add: split_beta step_shape_trans)
  next
    case Returned
    with h s g0 show ?thesis by (simp add: split_beta step_shape_trans)
  qed
qed

lemma closesI: "grows st mid \<Longrightarrow> ends f mid st' \<Longrightarrow> closes f st st'"
  unfolding closes_def by blast

lemma closes_catch: "closes True st (catch_handler e st)"
  by (rule closesI [of st st]) (auto simp: ends_def)

lemma closes_grows:
  assumes "grows a b" and "closes f b c"
  shows "closes f a c"
proof -
  from assms(2) obtain mid where "grows b mid" "ends f mid c" unfolding closes_def by blast
  with assms(1) show ?thesis by (blast intro: closesI grows_trans)
qed

lemma ends_weaken: "ends f a b \<Longrightarrow> ends True a b"
  unfolding ends_def by blast

lemma closes_weaken: "closes f a b \<Longrightarrow> closes True a b"
  unfolding closes_def using ends_weaken by blast

lemma closes_step:
  assumes "step_shape l st (st', Returned)"
  shows "closes f st st'"
proof -
  from assms obtain mid where "grows st mid" "fullReply mid \<noteq> []" "st' = done_from l mid"
    unfolding step_shape_def by auto
  then show ?thesis by (intro closesI [of st mid]) (auto simp: ends_def)
qed

lemma grows_trailing_step: "grows st (trailing_step env l st)"
  by (auto simp: trailing_step_def grows_def emit_def split: option.splits)

lemma end_of_stream_shape:
  "closes (\<exists>tr e. create_raises env tr = Some e) st (end_of_stream env lang st)"
proof -
  let ?st1 = "trailing_step env (snd lang) st"
  let ?st2 = "flush_step env (snd lang) ?st1"
  let ?f = "\<exists>tr e. create_raises env tr = Some e"
  have g: "grows st ?st2"
    using grows_trailing_step grows_flush_step by (rule grows_trans)
  show ?thesis
  proof (cases "fullReply ?st2 = []")
    case True
    then have "end_of_stream env lang st = emit End ?st2"
      by (simp add: end_of_stream_def save_and_end_def)
    with g True show ?thesis by (intro closesI [of st ?st2]) (auto simp: ends_def)
  next
    case ne: False
    show ?thesis
    proof (cases "create_raises env (trace ?st2)")
      case None
      with ne have "end_of_stream env lang st =
          emit End (emit (Create (assistant_message (fst lang) ?st2)) ?st2)"
        by (simp add: end_of_stream_def save_and_end_def message_create_reply)
      with g ne show ?thesis by (intro closesI [of st ?st2]) (auto simp: ends_def)
    next
      case (Some e)
      let ?mid = "emit (CreateRaised (assistant_message (fst lang) ?st2)) ?st2"
      from Some ne have eq: "end_of_stream env lang st = catch_handler e ?mid"
        by (simp add: end_of_stream_def save_and_end_def message_create_reply)
      have "grows ?st2 ?mid" by (simp add: grows_emit)
      with g have "grows st ?mid" by (rule grows_trans)
      moreover from Some have ?f by blast
      ultimately show ?thesis unfolding eq by (intro closesI [of st ?mid]) (auto simp: ends_def)
    qed
  qed
qed

lemma stream_body_shape: "closes True init_state (stream_body env trimmed)"
proof (cases "language_result env")
  case (Raises e)
  then show ?thesis by (simp add: stream_body_def closes_catch)
next
  case (Returns lang)
  show ?thesis
  proof (cases "save_user_raises env")
    case (Some e)
    let ?mid = "emit (CreateRaised (user_message trimmed (fst lang))) init_state"
    have "grows init_state ?mid" by (simp add: grows_emit)
    then have "closes True init_state (catch_handler e ?mid)"
      using closes_catch by (rule closes_grows)
    with Returns Some show ?thesis by (simp add: stream_body_def)
  next
    case None
    let ?st0 = "emit (Create (user_message trimmed (fst lang))) init_state"
    have g0: "grows init_state ?st0" by (simp add: grows_emit user_message_def)
    show ?thesis
    proof (cases "context_raises env")
      case (Some e)
      from g0 closes_catch have "closes True init_state (catch_handler e ?st0)" by (rule closes_grows)
      with Returns None Some show ?thesis by (simp add: stream_body_def)
    next
      case cn: None
      let ?st1 = "emit Fetch ?st0"
      have "grows ?st0 ?st1" by (simp add: grows_emit)
      with g0 have g1: "grows init_state ?st1" by (rule grows_trans)
      show ?thesis
      proof (cases "fetch_result env")
        case (FetchRaises e)
        from g1 closes_catch have "closes True init_state (catch_handler e ?st1)" by (rule closes_grows)
        with Returns None cn FetchRaises show ?thesis by (simp add: stream_body_def)
      next
        case (NotOk e)
        from g1 closes_catch have "closes True init_state (catch_handler e ?st1)" by (rule closes_grows)
        with Returns None cn NotOk show ?thesis by (simp add: stream_body_def)
      next
        case (Body chunks abort)
        obtain st2 c where r: "read_body env lang ?st1 chunks = (st2, c)"
          by (cases "read_body env lang ?st1 chunks")
        note s = read_body_shape [of lang ?st1 env chunks]
        have "closes True ?st1 (stream_body env trimmed)"
        proof (cases c)
          case Returned
          with r s have "closes True ?st1 st2" by (simp add: closes_step)
          with Returns None cn Body r Returned show ?thesis by (simp add: stream_body_def)
        next
          case Continue
          with r s have g2: "grows ?st1 st2" by (simp add: step_shape_def)
          show ?thesis
          proof (cases abort)
            case (Some e)
            from g2 closes_catch have "closes True ?st1 (catch_handler e st2)" by (rule closes_grows)
            with Returns None cn Body r Continue Some show ?thesis by (simp add: stream_body_def)
          next
            case an: None
            have "closes True st2 (end_of_stream env lang st2)"
              using end_of_stream_shape by (rule closes_weaken)
            with g2 have "closes True ?st1 (end_of_stream env lang st2)" by (rule closes_grows)
            with Returns None cn Body r Continue an show ?thesis by (simp add: stream_body_def)
          qed
        qed
        with g1 show ?thesis by (rule closes_grows)
      qed
    qed
  qed
qed

lemma closes_trace:
  assumes "closes f init_state st'"
  shows "\<exists>xs. list_all quiet xs \<and>
     ((\<exists>e e'. trace st' = xs @ [LogError e, Write (ErrorEvent e'), End]) \<or>
      (\<exists>a. m_role a = Assistant \<and> m_text a = fullReply st' \<and> fullReply st' \<noteq> [] \<and>
           trace st' = xs @ [Create a, Write DoneEvent, End]) \<or>
      (\<exists>a. m_role a = Assistant \<and> m_text a = fullReply st' \<and> fullReply st' \<noteq> [] \<and> trace st' = xs @ [Create a, End]) \<or>
      (fullReply st' = [] \<and> trace st' = xs @ [End]))"
proof -
  from assms obtain mid where g: "grows init_state mid" and
    alt: "(\<exists>e. st' = catch_handler e mid) \<or>
         (\<exists>l. fullReply mid \<noteq> [] \<and> st' = done_from l mid) \<or>
         (\<exists>l. fullReply mid \<noteq> [] \<and> st' = emit End (emit (Create (assistant_message l mid)) mid)) \<or>
         (fullReply mid = [] \<and> st' = emit End mid)"
    unfolding closes_def ends_def by blast
  from g have q: "list_all quiet (trace mid)" by (simp add: grows_def init_state_def)
  from alt consider
      (c) e where "st' = catch_handler e mid"
    | (d) l where "fullReply mid \<noteq> []" "st' = done_from l mid"
    | (p) l where "fullReply mid \<noteq> []" "st' = emit End (emit (Create (assistant_message l mid)) mid)"
    | (n) "fullReply mid = []" "st' = emit End mid"
    by blast
  then show ?thesis
  proof cases
    case c
    then have "trace st' = trace mid @ [LogError e, Write (ErrorEvent (if e \<noteq> [] then e else js ''Unknown error'')), End]"
      by (simp add: catch_handler_def emit_def)
    with q show ?thesis by blast
  next
    case d
    then have "trace st' = trace mid @ [Create (assistant_message l mid), Write DoneEvent, End]"
      "fullReply st' = fullReply mid"
      by (simp_all add: done_from_def emit_def)
    moreover have "m_role (assistant_message l mid) = Assistant" "m_text (assistant_message l mid) = fullReply mid"
      by (simp_all add: assistant_message_def)
    ultimately show ?thesis using q d(1) by metis
  next
    case p
    then have "trace st' = trace mid @ [Create (assistant_message l mid), End]"
      "fullReply st' = fullReply mid"
      by (simp_all add: emit_def)
    moreover have "m_role (assistant_message l mid) = Assistant" "m_text (assistant_message l mid) = fullReply mid"
      by (simp_all add: assistant_message_def)
    ultimately show ?thesis using q p(1) by metis
  next
    case n
    then have "trace st' = trace mid @ [End]" "fullReply st' = []"
      by (simp_all add: emit_def)
    with q show ?thesis by blast
  qed
qed

section \<open>Effects before the end of a session\<close>

lemma trim_Nil_ws: "trim s = [] \<longleftrightarrow> list_all is_ws s"
  by (simp add: trim_Nil_iff js_words_eq words_at_Nil_iff list_all_iff)

lemma quiet_not_terminal: "quiet e \<Longrightarrow> \<not> is_terminal e"
  by (cases e rule: quiet.cases) simp_all

lemma quiet_not_End: "quiet e \<Longrightarrow> e \<noteq> End"
  by (cases e rule: quiet.cases) simp_all

lemma quiet_not_reply: "quiet e \<Longrightarrow> \<not> is_reply_create e"
  by (cases e rule: quiet.cases) simp_all

lemma quiet_not_error: "quiet e \<Longrightarrow> \<not> is_error_write e"
  by (cases e rule: quiet.cases) simp_all

lemma quiet_not_done: "quiet e \<Longrightarrow> e \<noteq> Write DoneEvent"
  by (cases e rule: quiet.cases) simp_all

lemma quiet_not_LogError: "quiet e \<Longrightarrow> e \<noteq> LogError m"
  by (cases e rule: quiet.cases) simp_all

lemma terminal_is_last_append:
  "list_all quiet xs \<Longrightarrow> terminal_is_last (xs @ ys) = terminal_is_last ys"
  by (induction xs) (simp_all add: quiet_not_terminal)

lemma closed_last_append:
  "list_all quiet xs \<Longrightarrow> ys \<noteq> [] \<Longrightarrow> closed_last (xs @ ys) = closed_last ys"
proof (induction xs)
  case Nil
  then show ?case by simp
next
  case (Cons x xs)
  then obtain z zs where z: "xs @ ys = z # zs" by (cases "xs @ ys") auto
  from Cons have "x \<noteq> End" by (simp add: quiet_not_End)
  with Cons z show ?case by simp
qed

lemma closed_last_saves: "closed_last tr \<Longrightarrow> saves_before_end tr"
  by (induction tr rule: closed_last.induct) simp_all

lemma filter_reply_quiet: "list_all quiet xs \<Longrightarrow> filter is_reply_create xs = []"
  by (induction xs) (simp_all add: quiet_not_reply)

lemma no_error_quiet: "list_all quiet xs \<Longrightarrow> \<not> list_ex is_error_write xs"
  by (induction xs) (simp_all add: quiet_not_error)

lemma no_terminal_quiet: "list_all quiet xs \<Longrightarrow> \<not> list_ex is_terminal xs"
  by (induction xs) (simp_all add: quiet_not_terminal)

lemma no_done_quiet: "list_all quiet xs \<Longrightarrow> Write DoneEvent \<notin> set xs"
  by (induction xs) (auto simp: quiet_not_done)

lemma no_LogError_quiet: "list_all quiet xs \<Longrightarrow> LogError m \<notin> set xs"
  by (induction xs) (auto simp: quiet_not_LogError)

lemma trace_empty_prompt: "trace empty_prompt = [Write (ErrorEvent (js ''Empty prompt'')), End]"
  by (simp add: empty_prompt_def emit_def init_state_def)

lemma fullReply_empty_prompt: "fullReply empty_prompt = []"
  by (simp add: empty_prompt_def emit_def init_state_def)

text \<open>Every session is the guard's, or ends in one of the four ways of \<open>closes_trace\<close>.\<close>

lemma stream_handler_cases:
  "stream_handler env req = empty_prompt \<or> closes True init_state (stream_handler env req)"
  by (simp add: stream_handler_def stream_body_shape split: option.splits)

lemma session_trace:
  "\<exists>xs. list_all quiet xs \<and>
     ((\<exists>e. trace (stream_handler env req) = xs @ [Write (ErrorEvent e), End] \<and>
           fullReply (stream_handler env req) = [] \<and> xs = []) \<or>
      (\<exists>e e'. trace (stream_handler env req) = xs @ [LogError e, Write (ErrorEvent e'), End]) \<or>
      (\<exists>a. m_role a = Assistant \<and> m_text a = fullReply (stream_handler env req) \<and>
           fullReply (stream_handler env req) \<noteq> [] \<and>
           trace (stream_handler env req) = xs @ [Create a, Write DoneEvent, End]) \<or>
      (\<exists>a. m_role a = Assistant \<and> m_text a = fullReply (stream_handler env req) \<and>
           fullReply (stream_handler env req) \<noteq> [] \<and>
           trace (stream_handler env req) = xs @ [Create a, End]) \<or>
      (fullReply (stream_handler env req) = [] \<and> trace (stream_handler env req) = xs @ [End]))"
proof (cases "stream_handler env req = empty_prompt")
  case True
  have "list_all quiet []" by simp
  moreover have "trace (stream_handler env req) = [] @ [Write (ErrorEvent (js ''Empty prompt'')), End]"
    "fullReply (stream_handler env req) = []"
    using True by (simp_all add: trace_empty_prompt fullReply_empty_prompt)
  ultimately show ?thesis by blast
next
  case False
  with stream_handler_cases [of env req] have "closes True init_state (stream_handler env req)"
    by simp
  from closes_trace [OF this] show ?thesis by blast
qed

section \<open>Records of the loop when no write raises\<close>

lemma foldl_partials_no_raise:
  assumes "\<forall>tr. \<not> write_raises env tr"
  shows "foldl (\<lambda>s g. try_write env (SentencePartial g l) s) st groups
     = st\<lparr>trace := trace st @ map (\<lambda>g. Write (SentencePartial g l)) groups\<rparr>"
  using assms by (induction groups arbitrary: st) (simp_all add: try_write_def emit_def)

lemma token_step_no_raise:
  assumes "\<forall>tr. \<not> write_raises env tr"
  shows "token_step env l r st =
     (st\<lparr>trace := trace st @ Write (Token r l) #
                map (\<lambda>g. Write (SentencePartial g l)) (fst (absorb (speechBuffer st) r)),
         fullReply := fullReply st @ r,
         speechBuffer := snd (absorb (speechBuffer st) r)\<rparr>, False)"
  using assms
  by (simp add: token_step_def Let_def split_beta foldl_partials_no_raise emit_def)

lemma handle_part_malformed:
  "malformed env part \<Longrightarrow> handle_part env lang st part = (emit (Warn (trim part)) st, Continue)"
  by (simp add: malformed_def handle_part_def)

lemma handle_part_token:
  assumes "\<forall>tr. \<not> write_raises env tr" and "token_bearing env part"
  shows "handle_part env lang st part =
     (st\<lparr>trace := trace st @ Write (Token (token_text env part) (snd lang)) #
                map (\<lambda>g. Write (SentencePartial g (snd lang)))
                  (fst (absorb (speechBuffer st) (token_text env part))),
         fullReply := fullReply st @ token_text env part,
         speechBuffer := snd (absorb (speechBuffer st) (token_text env part))\<rparr>, Continue)"
proof -
  from assms(2) obtain p where p: "JSON_parse env (trim part) = Some p" "p_response p \<noteq> []"
    "\<not> p_done p" "trim part \<noteq> []"
    by (auto simp: token_bearing_def split: option.splits)
  then show ?thesis
    by (simp add: handle_part_def token_text_def token_step_no_raise [OF assms(1)])
qed

lemma same_channel_refl [simp]: "same_channel st st"
  by (simp add: same_channel_def)

lemma same_channel_warn: "same_channel a b \<Longrightarrow> same_channel (emit (Warn l) a) b"
  by (simp add: same_channel_def emit_def)

lemma handle_parts_skip:
  assumes nr: "\<forall>tr. \<not> write_raises env tr"
  shows "list_all (\<lambda>part. malformed env part \<or> token_bearing env part) parts \<Longrightarrow>
    same_channel a b \<Longrightarrow>
    snd (handle_parts env lang a parts) = Continue \<and>
    same_channel (fst (handle_parts env lang a parts))
      (fst (handle_parts env lang b (filter (token_bearing env) parts))) \<and>
    fullReply (fst (handle_parts env lang a parts))
      = fullReply a @ concat (map (token_text env) (filter (token_bearing env) parts))"
proof (induction parts arbitrary: a b)
  case Nil
  then show ?case by simp
next
  case (Cons part parts)
  from Cons.prems have rest: "list_all (\<lambda>part. malformed env part \<or> token_bearing env part) parts"
    by simp
  show ?case
  proof (cases "token_bearing env part")
    case True
    let ?f = "\<lambda>st. st\<lparr>trace := trace st @ Write (Token (token_text env part) (snd lang)) #
                map (\<lambda>g. Write (SentencePartial g (snd lang)))
                  (fst (absorb (speechBuffer st) (token_text env part))),
         fullReply := fullReply st @ token_text env part,
         speechBuffer := snd (absorb (speechBuffer st) (token_text env part))\<rparr>"
    have ha: "handle_part env lang a part = (?f a, Continue)"
      and hb: "handle_part env lang b part = (?f b, Continue)"
      using handle_part_token [OF nr True] by blast+
    from Cons.prems(2) have s: "same_channel (?f a) (?f b)"
      by (simp add: same_channel_def)
    from Cons.IH [OF rest s] ha hb True show ?thesis by simp
  next
    case False
    with Cons.prems have m: "malformed env part" by simp
    from Cons.prems(2) have s: "same_channel (emit (Warn (trim part)) a) b"
      by (rule same_channel_warn)
    from Cons.IH [OF rest s] handle_part_malformed [OF m] False show ?thesis by simp
  qed
qed

section \<open>The end of the body\<close>

lemma flush_step_trace:
  "\<exists>xs. trace (flush_step env l st) = trace st @ xs \<and> list_all (\<lambda>e. \<not> is_warn e) xs"
proof (cases "fst (flush (speechBuffer st))")
  case None
  then show ?thesis by (simp add: flush_step_eq)
next
  case (Some g)
  then show ?thesis by (simp add: flush_step_eq try_write_def emit_def)
qed

lemma flush_step_buffer:
  "flush_step env l (st\<lparr>buffer := b\<rparr>) = (flush_step env l st)\<lparr>buffer := b\<rparr>"
  by (simp add: flush_step_eq try_write_def emit_def split: option.splits)

lemma buffer_flush_step [simp]: "buffer (flush_step env l st) = buffer st"
  by (simp add: flush_step_eq try_write_def emit_def split: option.splits)

lemma save_and_end_buffer:
  "save_and_end env l (st\<lparr>buffer := b\<rparr>) = (save_and_end env l st)\<lparr>buffer := b\<rparr>"
  by (simp add: save_and_end_def catch_handler_def emit_def assistant_message_def split: option.splits)

lemma buffer_save_and_end [simp]: "buffer (save_and_end env l st) = buffer st"
  by (simp add: save_and_end_def catch_handler_def emit_def split: option.splits)

lemma end_of_stream_unparsed:
  assumes "JSON_parse env (buffer st) = None"
  shows "end_of_stream env lang st = (end_of_stream env lang (st\<lparr>buffer := []\<rparr>))\<lparr>buffer := buffer st\<rparr>"
proof -
  let ?x = "save_and_end env (fst lang) (flush_step env (snd lang) st)"
  have a: "trailing_step env (snd lang) st = st"
    using assms by (simp add: trailing_step_def)
  have b: "trailing_step env (snd lang) (st\<lparr>buffer := []\<rparr>) = st\<lparr>buffer := []\<rparr>"
    by (simp add: trailing_step_def)
  have "buffer ?x = buffer st" by simp
  then have "?x = ?x\<lparr>buffer := buffer st\<rparr>" by (cases ?x) simp
  then show ?thesis
    unfolding end_of_stream_def a b flush_step_buffer save_and_end_buffer by simp
qed

lemma save_and_end_trace:
  "\<exists>xs. trace (save_and_end env l st) = trace st @ xs \<and> list_all (\<lambda>e. \<not> is_warn e) xs"
  by (simp add: save_and_end_def catch_handler_def emit_def split: option.splits)

lemma end_of_stream_no_warn:
  assumes "JSON_parse env (buffer st) = None"
  shows "list_all (\<lambda>e. \<not> is_warn e) (drop (length (trace st)) (trace (end_of_stream env lang st)))"
proof -
  have a: "trailing_step env (snd lang) st = st"
    using assms by (simp add: trailing_step_def)
  obtain xs where xs: "trace (flush_step env (snd lang) st) = trace st @ xs" "list_all (\<lambda>e. \<not> is_warn e) xs"
    using flush_step_trace by blast
  obtain ys where ys: "trace (save_and_end env (fst lang) (flush_step env (snd lang) st))
      = trace (flush_step env (snd lang) st) @ ys" "list_all (\<lambda>e. \<not> is_warn e) ys"
    using save_and_end_trace by blast
  from xs ys show ?thesis by (simp add: end_of_stream_def a)
qed

lemma end_of_stream_token:
  assumes "buffer st \<noteq> []" and "JSON_parse env (buffer st) = Some p" and "p_response p \<noteq> []"
    and "\<not> write_raises env (trace st)"
  shows "fullReply (end_of_stream env lang st) = fullReply st @ p_response p"
    and "take (Suc (length (trace st))) (trace (end_of_stream env lang st))
           = trace st @ [Write (Token (p_response p) (snd lang))]"
    and "Create \<lparr>m_text = fullReply st @ p_response p, m_role = Assistant, m_language = fst lang\<rparr>
           \<in> set (trace (end_of_stream env lang st)) \<or>
         CreateRaised \<lparr>m_text = fullReply st @ p_response p, m_role = Assistant, m_language = fst lang\<rparr>
           \<in> set (trace (end_of_stream env lang st))"
    and "(\<forall>tr. create_raises env tr = None) \<longrightarrow>
         Create \<lparr>m_text = fullReply st @ p_response p, m_role = Assistant, m_language = fst lang\<rparr>
           \<in> set (trace (end_of_stream env lang st))"
proof -
  let ?r = "p_response p"
  let ?st1 = "(emit (Write (Token ?r (snd lang))) st)\<lparr>fullReply := fullReply st @ ?r,
      speechBuffer := speechBuffer st @ ?r\<rparr>"
  let ?st2 = "flush_step env (snd lang) ?st1"
  let ?M = "\<lparr>m_text = fullReply st @ ?r, m_role = Assistant, m_language = fst lang\<rparr>"
  have a: "trailing_step env (snd lang) st = ?st1"
    using assms by (simp add: trailing_step_def)
  obtain xs where xs: "trace ?st2 = trace ?st1 @ xs"
    using flush_step_trace by blast
  have t1: "trace ?st1 = trace st @ [Write (Token ?r (snd lang))]" by (simp add: emit_def)
  have f2: "fullReply ?st2 = fullReply st @ ?r" by simp
  have m: "assistant_message (fst lang) ?st2 = ?M" by (simp add: assistant_message_def)
  have ne: "fullReply ?st2 \<noteq> []" using assms(3) by simp
  have mc: "message_create env (trace ?st2) ?M = create_raises env (trace ?st2)"
    using assms(3) by (simp add: message_create_def)
  have eq: "end_of_stream env lang st =
     (case create_raises env (trace ?st2) of
        Some e \<Rightarrow> catch_handler e (emit (CreateRaised ?M) ?st2)
      | None \<Rightarrow> emit End (emit (Create ?M) ?st2))"
    unfolding end_of_stream_def a save_and_end_def m mc using ne by simp
  have tr: "\<exists>ys. trace (end_of_stream env lang st) = trace st @ Write (Token ?r (snd lang)) # ys"
    unfolding eq using xs t1 by (cases "create_raises env (trace ?st2)") (simp_all add: catch_handler_def emit_def)
  show "fullReply (end_of_stream env lang st) = fullReply st @ ?r"
    unfolding eq using f2 by (cases "create_raises env (trace ?st2)") (simp_all add: catch_handler_def)
  from tr show "take (Suc (length (trace st))) (trace (end_of_stream env lang st))
           = trace st @ [Write (Token ?r (snd lang))]"
    by auto
  show c: "Create ?M \<in> set (trace (end_of_stream env lang st)) \<or>
         CreateRaised ?M \<in> set (trace (end_of_stream env lang st))"
    unfolding eq by (cases "create_raises env (trace ?st2)") (simp_all add: catch_handler_def emit_def)
  show "(\<forall>tr. create_raises env tr = None) \<longrightarrow> Create ?M \<in> set (trace (end_of_stream env lang st))"
    unfolding eq by (simp add: emit_def)
qed

section \<open>Writes that raise\<close>

lemma stream_body_no_failure:
  assumes "language_result env = Returns lang" and "save_user_raises env = None"
    and "context_raises env = None" and "fetch_result env = Body chunks None"
    and "\<forall>tr. create_raises env tr = None"
  shows "closes False init_state (stream_body env trimmed)"
proof -
  let ?st0 = "emit (Create (user_message trimmed (fst lang))) init_state"
  let ?st1 = "emit Fetch ?st0"
  have "grows init_state ?st0" by (simp add: grows_emit user_message_def)
  moreover have "grows ?st0 ?st1" by (simp add: grows_emit)
  ultimately have g1: "grows init_state ?st1" by (rule grows_trans)
  obtain st2 c where r: "read_body env lang ?st1 chunks = (st2, c)"
    by (cases "read_body env lang ?st1 chunks")
  note s = read_body_shape [of lang ?st1 env chunks]
  have "closes False ?st1 (stream_body env trimmed)"
  proof (cases c)
    case Returned
    with r s have "closes False ?st1 st2" by (simp add: closes_step)
    with assms r Returned show ?thesis by (simp add: stream_body_def)
  next
    case Continue
    with r s have g2: "grows ?st1 st2" by (simp add: step_shape_def)
    have "closes (\<exists>tr e. create_raises env tr = Some e) st2 (end_of_stream env lang st2)"
      by (rule end_of_stream_shape)
    with assms(5) have "closes False st2 (end_of_stream env lang st2)" by simp
    with g2 have "closes False ?st1 (end_of_stream env lang st2)" by (rule closes_grows)
    with assms r Continue show ?thesis by (simp add: stream_body_def)
  qed
  with g1 show ?thesis by (rule closes_grows)
qed

lemma closes_False_trace:
  assumes "closes False init_state st'"
  shows "\<exists>xs. list_all quiet xs \<and>
     ((\<exists>a. trace st' = xs @ [Create a, Write DoneEvent, End]) \<or>
      (\<exists>a. trace st' = xs @ [Create a, End]) \<or>
      trace st' = xs @ [End])"
proof -
  from assms obtain mid where g: "grows init_state mid" and
    alt: "(\<exists>l. st' = done_from l mid) \<or>
         (\<exists>l. st' = emit End (emit (Create (assistant_message l mid)) mid)) \<or>
         st' = emit End mid"
    unfolding closes_def ends_def by blast
  from g have q: "list_all quiet (trace mid)" by (simp add: grows_def init_state_def)
  from alt have "(\<exists>a. trace st' = trace mid @ [Create a, Write DoneEvent, End]) \<or>
      (\<exists>a. trace st' = trace mid @ [Create a, End]) \<or>
      trace st' = trace mid @ [End]"
    by (auto simp: done_from_def emit_def)
  with q show ?thesis by blast
qed

lemma no_failure_trace:
  assumes "closes False init_state st'"
  shows "\<not> list_ex is_error_write (trace st')"
    and "list_all (\<lambda>e. case e of LogError m \<Rightarrow> False | _ \<Rightarrow> True) (trace st')"
    and "closed_last (trace st')"
proof -
  from closes_False_trace [OF assms] obtain xs where q: "list_all quiet xs" and
    alt: "(\<exists>a. trace st' = xs @ [Create a, Write DoneEvent, End]) \<or>
      (\<exists>a. trace st' = xs @ [Create a, End]) \<or>
      trace st' = xs @ [End]"
    by blast
  have nl: "list_all (\<lambda>e. case e of LogError m \<Rightarrow> False | _ \<Rightarrow> True) xs"
    using q by (induction xs) (auto split: effect.splits)
  from alt show "\<not> list_ex is_error_write (trace st')"
    using no_error_quiet [OF q] by (auto simp: list_ex_append)
  from alt show "list_all (\<lambda>e. case e of LogError m \<Rightarrow> False | _ \<Rightarrow> True) (trace st')"
    using nl by auto
  from alt show "closed_last (trace st')"
    by (elim disjE exE) (simp_all add: closed_last_append [OF q])
qed

lemma foldl_partials_trace:
  "\<exists>xs. trace (foldl (\<lambda>s g. try_write env (SentencePartial g l) s) st groups) = trace st @ xs \<and>
        list_all (\<lambda>e. \<not> is_log e) xs"
proof (induction groups arbitrary: st)
  case Nil
  then show ?case by simp
next
  case (Cons g groups)
  let ?st = "try_write env (SentencePartial g l) st"
  obtain x where x: "trace ?st = trace st @ [x]" "\<not> is_log x"
    by (cases "write_raises env (trace st)") (simp_all add: try_write_def emit_def)
  from Cons [of ?st] obtain xs where
    "trace (foldl (\<lambda>s g. try_write env (SentencePartial g l) s) ?st groups) = trace ?st @ xs"
    "list_all (\<lambda>e. \<not> is_log e) xs"
    by blast
  with x show ?case by simp
qed

lemma other_foldl_partials [simp]:
  "speechBuffer (foldl (\<lambda>s g. try_write env (SentencePartial g l) s) st groups) = speechBuffer st"
  by (induction groups arbitrary: st) (simp_all add: try_write_def emit_def)

lemma token_step_written:
  assumes "\<not> write_raises env (trace st)"
  shows "snd (token_step env l r st) = False"
    and "fullReply (fst (token_step env l r st)) = fullReply st @ r"
    and "speechBuffer (fst (token_step env l r st)) = snd (absorb (speechBuffer st) r)"
    and "list_all (\<lambda>e. \<not> is_log e) (drop (length (trace st)) (trace (fst (token_step env l r st))))"
proof -
  let ?st1 = "(emit (Write (Token r l)) st)\<lparr>fullReply := fullReply st @ r\<rparr>"
  let ?groups = "fst (absorb (speechBuffer st) r)"
  let ?st2 = "foldl (\<lambda>s g. try_write env (SentencePartial g l) s) ?st1 ?groups"
  have eq: "token_step env l r st = (?st2\<lparr>speechBuffer := snd (absorb (speechBuffer st) r)\<rparr>, False)"
    using assms by (simp add: token_step_def Let_def split_beta emit_def)
  obtain xs where xs: "trace ?st2 = trace ?st1 @ xs" "list_all (\<lambda>e. \<not> is_log e) xs"
    using foldl_partials_trace by blast
  show "snd (token_step env l r st) = False" by (simp add: eq)
  show "fullReply (fst (token_step env l r st)) = fullReply st @ r" by (simp add: eq)
  show "speechBuffer (fst (token_step env l r st)) = snd (absorb (speechBuffer st) r)" by (simp add: eq)
  show "list_all (\<lambda>e. \<not> is_log e) (drop (length (trace st)) (trace (fst (token_step env l r st))))"
    using xs by (simp add: eq emit_def)
qed

lemma handle_part_token_raised:
  assumes "trim part \<noteq> []" and "JSON_parse env (trim part) = Some p" and "p_response p \<noteq> []"
    and "write_raises env (trace st)"
  shows "handle_part env lang st part =
     (emit (Warn (trim part)) (emit (WriteRaised (Token (p_response p) (snd lang))) st), Continue)"
  using assms by (simp add: handle_part_def token_step_def)

lemma flush_step_raised:
  assumes "fst (flush (speechBuffer st)) = Some g" and "write_raises env (trace st)"
  shows "flush_step env l st = (emit (WriteRaised (SentencePartial g l)) st)\<lparr>speechBuffer := []\<rparr>"
proof -
  from assms(1) have "snd (flush (speechBuffer st)) = []"
    by (simp add: flush_def Let_def split: if_splits)
  with assms show ?thesis by (simp add: flush_step_eq try_write_def)
qed

section \<open>Properties\<close>

subsection \<open>Decoding is independent of the chunking\<close>

text \<open>
  C4. For every body that is the concatenation of N complete line-terminated records
  (each free of line feeds and terminated by a line feed, or by a carriage return and a
  line feed; a record terminated by a bare line feed is one that does not end in a carriage
  return) and a trailing fragment without a line feed, and for every way of splitting that
  body into chunks, the decode calls return, taken together, exactly the N records in their
  order, each once, and the buffer left at the end is the trailing fragment.
\<close>

theorem decode_rechunk:
  assumes "list_all record_ok records" and "LF \<notin> set fragment"
    and "concat chunks = stream_of records fragment"
  shows "decode_all [] chunks = (map fst records, fragment)"
  using assms decode_all_eq [of "[]" chunks] by (simp add: split_lines_stream_of)

theorem decode_rechunk_witness:
  "list_all record_ok [(js ''ab'', BareLF), ([], CRLF), (js ''c'', CRLF)] \<and>
   LF \<notin> set (js ''de'') \<and>
   concat [js ''a'', js ''b'' @ [LF, CR], [LF] @ js ''c'' @ [CR], [LF] @ js ''d'', js ''e'']
     = stream_of [(js ''ab'', BareLF), ([], CRLF), (js ''c'', CRLF)] (js ''de'') \<and>
   decode_all [] [js ''a'', js ''b'' @ [LF, CR], [LF] @ js ''c'' @ [CR], [LF] @ js ''d'', js ''e'']
     = ([js ''ab'', [], js ''c''], js ''de'')"
proof -
  have r: "list_all record_ok [(js ''ab'', BareLF), ([], CRLF), (js ''c'', CRLF)]"
    by (simp add: js_def LF_def CR_def)
  have f: "LF \<notin> set (js ''de'')"
    by (simp add: js_def LF_def)
  have c: "concat [js ''a'', js ''b'' @ [LF, CR], [LF] @ js ''c'' @ [CR], [LF] @ js ''d'', js ''e'']
     = stream_of [(js ''ab'', BareLF), ([], CRLF), (js ''c'', CRLF)] (js ''de'')"
    by (simp add: js_def)
  from decode_rechunk [OF r f c] r f c show ?thesis by simp
qed

subsection \<open>Word groups\<close>


text \<open>
  The second way in which words are not preserved: after a cut that leaves words in the
  buffer, \<^verbatim>\<open>speechBuffer = words.join(' ')\<close> has dropped the whitespace behind them. With the
  tokens \<open>a b c d e f g h i \<close> and \<open>j\<close> no word straddles the boundary, yet the buffer is
  \<open>i\<close> when \<open>j\<close> is appended, and the flush yields the one word \<open>ij\<close>.
\<close>

lemma chunker_joins_after_cut:
  "no_straddle [] [js ''a b c d e f g h i '', js ''j''] \<and>
   \<not> no_lost_space [] [js ''a b c d e f g h i '', js ''j''] \<and>
   snd (absorb [] (js ''a b c d e f g h i '')) = js ''i'' \<and>
   fst (flush (snd (absorb_all [] [js ''a b c d e f g h i '', js ''j'']))) = Some (js ''ij'')"
  by code_simp



subsection \<open>Flushing twice\<close>

text \<open>
  C8, as stated, fails in one point: the buffer is not empty after every flush. The reset
  \<^verbatim>\<open>speechBuffer = ''\<close> stands inside \<^verbatim>\<open>if (leftover) { ... }\<close>, so a buffer of whitespace only
  is left as it is: flushing a single space returns no group and leaves the space.
\<close>

theorem flush_leaves_whitespace:
  "flush [SP] = (None, [SP]) \<and> snd (flush [SP]) \<noteq> []"
  by code_simp

text \<open>
  C8, amended. After any flush the speech buffer holds no word: it is the empty string
  when the flush returned a group, and is left as it was, empty or whitespace only, when
  it returned none. A second flush with nothing absorbed in between returns no group and
  leaves the buffer as it is. Flushing a buffer that holds no word, empty or whitespace
  only, returns no group; a group that is returned is the trimmed buffer, which holds
  the words of the buffer, at least one, and so is never empty.
\<close>

theorem flush_idempotent:
  "flush sb = (if js_words sb = [] then (None, sb) else (Some (trim sb), [])) \<and>
   (case fst (flush sb) of
      None \<Rightarrow> js_words sb = []
    | Some g \<Rightarrow> g = trim sb \<and> js_words g = js_words sb \<and> js_words g \<noteq> [] \<and> g \<noteq> []) \<and>
   flush (snd (flush sb)) = (None, snd (flush sb)) \<and>
   fst (flush (snd (flush sb))) = None \<and>
   js_words (snd (flush sb)) = [] \<and>
   trim (snd (flush sb)) = [] \<and>
   fst (flush sb) \<noteq> Some [] \<and>
   snd (flush sb) = (if fst (flush sb) = None then sb else []) \<and>
   flush [] = (None, [])"
proof -
  have t: "trim [] = []" by (simp add: trim_def)
  show ?thesis
  proof (cases "trim sb = []")
    case True
    with t show ?thesis by (simp add: flush_def trim_Nil_iff)
  next
    case False
    then have "js_words sb \<noteq> []" by (simp add: trim_Nil_iff)
    with False t show ?thesis by (simp add: flush_def js_words_trim)
  qed
qed

theorem flush_idempotent_witness:
  "flush (js '' a  b '') = (Some (js ''a  b''), []) \<and>
   flush (snd (flush (js '' a  b ''))) = (None, []) \<and>
   flush [SP, LF] = (None, [SP, LF]) \<and>
   flush (snd (flush [SP, LF])) = (None, [SP, LF])"
proof -
  have a: "flush (js '' a  b '') = (Some (js ''a  b''), [])" by code_simp
  have b: "flush [SP, LF] = (None, [SP, LF])" by code_simp
  from flush_idempotent [of "js '' a  b ''"] flush_idempotent [of "[SP, LF]"] a b
  show ?thesis by simp
qed

subsection \<open>The empty prompt\<close>

text \<open>
  C10. For every request whose prompt is missing, or consists of whitespace only, the
  session writes exactly one error event and ends the response, and does nothing else: no
  request to the backend, no write to the message store, no token, sentence_partial or
  done event.
\<close>

theorem empty_prompt_session:
  assumes "case prompt req of None \<Rightarrow> True | Some userText \<Rightarrow> list_all is_ws userText"
  shows "trace (stream_handler env req) = [Write (ErrorEvent (js ''Empty prompt'')), End]"
  using assms
  by (simp add: stream_handler_def trace_empty_prompt trim_Nil_ws split: option.splits)

theorem empty_prompt_session_witness:
  "list_all is_ws [SP, 0xA0, LF] \<and>
   trace (stream_handler (demo_env [hello_line @ [LF]] None (\<lambda>tr. False)) \<lparr>prompt = Some [SP, 0xA0, LF]\<rparr>)
     = [Write (ErrorEvent (js ''Empty prompt'')), End] \<and>
   trace (stream_handler (demo_env [hello_line @ [LF]] None (\<lambda>tr. False)) \<lparr>prompt = None\<rparr>)
     = [Write (ErrorEvent (js ''Empty prompt'')), End]"
proof -
  have w: "list_all is_ws [SP, 0xA0, LF]"
    by (simp add: is_ws_def SP_def LF_def)
  from w have a: "case prompt \<lparr>prompt = Some [SP, 0xA0, LF]\<rparr> of None \<Rightarrow> True
      | Some userText \<Rightarrow> list_all is_ws userText"
    by simp
  have b: "case prompt \<lparr>prompt = None\<rparr> of None \<Rightarrow> True | Some userText \<Rightarrow> list_all is_ws userText"
    by simp
  from empty_prompt_session [OF a] empty_prompt_session [OF b] w show ?thesis by blast
qed

subsection \<open>The order of the effects\<close>

text \<open>
  C6. In every session, once a terminal event (done or error) is written nothing more is
  written, so every token and sentence_partial event precedes it and it is the last event
  on the channel; and the response is ended exactly once, as the last effect of the
  session, so every write to the message store precedes the close.
\<close>

theorem effects_ordered:
  "terminal_is_last (trace (stream_handler env req)) \<and>
   closed_last (trace (stream_handler env req)) \<and>
   saves_before_end (trace (stream_handler env req))"
proof -
  from session_trace [of env req] obtain xs where q: "list_all quiet xs" and
    alt: "(\<exists>e. trace (stream_handler env req) = xs @ [Write (ErrorEvent e), End]) \<or>
      (\<exists>e e'. trace (stream_handler env req) = xs @ [LogError e, Write (ErrorEvent e'), End]) \<or>
      (\<exists>a. trace (stream_handler env req) = xs @ [Create a, Write DoneEvent, End]) \<or>
      (\<exists>a. trace (stream_handler env req) = xs @ [Create a, End]) \<or>
      trace (stream_handler env req) = xs @ [End]"
    by blast
  from alt have "terminal_is_last (trace (stream_handler env req)) \<and>
      closed_last (trace (stream_handler env req))"
    by (elim disjE exE) (simp_all add: terminal_is_last_append [OF q] closed_last_append [OF q])
  then show ?thesis by (simp add: closed_last_saves)
qed

theorem effects_ordered_witness:
  "trace (stream_handler
      (demo_env [hello_line @ [LF] @ world_line @ [CR, LF] @ done_line @ [LF]] None (\<lambda>tr. False))
      demo_request)
     = [Create (user_message (js ''hi'') (js ''eng'')), Fetch,
        Write (Token (js ''Hello '') (js ''en-US'')),
        Write (Token (js ''world'') (js ''en-US'')),
        Write (SentencePartial (js ''Hello world'') (js ''en-US'')),
        Create \<lparr>m_text = js ''Hello world'', m_role = Assistant, m_language = js ''eng''\<rparr>,
        Write DoneEvent, End] \<and>
   terminal_is_last (trace (stream_handler
      (demo_env [hello_line @ [LF] @ world_line @ [CR, LF] @ done_line @ [LF]] None (\<lambda>tr. False))
      demo_request)) \<and>
   closed_last (trace (stream_handler
      (demo_env [hello_line @ [LF] @ world_line @ [CR, LF] @ done_line @ [LF]] None (\<lambda>tr. False))
      demo_request)) \<and>
   saves_before_end (trace (stream_handler
      (demo_env [hello_line @ [LF] @ world_line @ [CR, LF] @ done_line @ [LF]] None (\<lambda>tr. False))
      demo_request))"
proof -
  have "trace (stream_handler
      (demo_env [hello_line @ [LF] @ world_line @ [CR, LF] @ done_line @ [LF]] None (\<lambda>tr. False))
      demo_request)
     = [Create (user_message (js ''hi'') (js ''eng'')), Fetch,
        Write (Token (js ''Hello '') (js ''en-US'')),
        Write (Token (js ''world'') (js ''en-US'')),
        Write (SentencePartial (js ''Hello world'') (js ''en-US'')),
        Create \<lparr>m_text = js ''Hello world'', m_role = Assistant, m_language = js ''eng''\<rparr>,
        Write DoneEvent, End]"
    by code_simp
  with effects_ordered [of "demo_env [hello_line @ [LF] @ world_line @ [CR, LF] @ done_line @ [LF]] None (\<lambda>tr. False)" demo_request]
  show ?thesis by blast
qed

subsection \<open>Saving the reply\<close>

text \<open>
  C1, as stated, fails: the handler's \<^verbatim>\<open>catch\<close> logs, writes the error event and ends the
  response, and saves nothing. When the body raises after the token \<open>Hello \<close> has been
  written and appended, the session ends without any write of the reply to the store.
\<close>

theorem partial_reply_dropped_on_error:
  "fullReply (stream_handler (demo_env [hello_line @ [LF]] (Some (js ''socket hang up'')) (\<lambda>tr. False))
      demo_request) = js ''Hello '' \<and>
   trace (stream_handler (demo_env [hello_line @ [LF]] (Some (js ''socket hang up'')) (\<lambda>tr. False))
      demo_request)
     = [Create (user_message (js ''hi'') (js ''eng'')), Fetch,
        Write (Token (js ''Hello '') (js ''en-US'')),
        LogError (js ''socket hang up''),
        Write (ErrorEvent (js ''socket hang up'')), End]"
  by code_simp

text \<open>
  C1, amended. For every session in which an error event is written, whatever text
  FullReply has accumulated: the error event is followed by the end of the response and by
  nothing else, and the session contains no write of the assistant's reply to the message
  store. The accumulated text is saved only by the done record and at the end of the body.
\<close>

theorem error_path_saves_nothing:
  "list_ex is_error_write (trace (stream_handler env req)) \<longrightarrow>
     filter is_reply_create (trace (stream_handler env req)) = [] \<and>
     (\<exists>xs e. list_all quiet xs \<and>
        (trace (stream_handler env req) = xs @ [Write (ErrorEvent e), End] \<or>
         (\<exists>m. trace (stream_handler env req) = xs @ [LogError m, Write (ErrorEvent e), End])))"
proof
  assume err: "list_ex is_error_write (trace (stream_handler env req))"
  from session_trace [of env req] obtain xs where q: "list_all quiet xs" and
    alt: "(\<exists>e. trace (stream_handler env req) = xs @ [Write (ErrorEvent e), End]) \<or>
      (\<exists>e e'. trace (stream_handler env req) = xs @ [LogError e, Write (ErrorEvent e'), End]) \<or>
      (\<exists>a. trace (stream_handler env req) = xs @ [Create a, Write DoneEvent, End]) \<or>
      (\<exists>a. trace (stream_handler env req) = xs @ [Create a, End]) \<or>
      trace (stream_handler env req) = xs @ [End]"
    by blast
  note nq = no_error_quiet [OF q] filter_reply_quiet [OF q]
  from alt consider
      (g) e where "trace (stream_handler env req) = xs @ [Write (ErrorEvent e), End]"
    | (c) e e' where "trace (stream_handler env req) = xs @ [LogError e, Write (ErrorEvent e'), End]"
    | (d) a where "trace (stream_handler env req) = xs @ [Create a, Write DoneEvent, End]"
    | (p) a where "trace (stream_handler env req) = xs @ [Create a, End]"
    | (n) "trace (stream_handler env req) = xs @ [End]"
    by blast
  then show "filter is_reply_create (trace (stream_handler env req)) = [] \<and>
     (\<exists>xs e. list_all quiet xs \<and>
        (trace (stream_handler env req) = xs @ [Write (ErrorEvent e), End] \<or>
         (\<exists>m. trace (stream_handler env req) = xs @ [LogError m, Write (ErrorEvent e), End])))"
  proof cases
    case g
    with nq have "filter is_reply_create (trace (stream_handler env req)) = []" by simp
    with g q show ?thesis by blast
  next
    case c
    with nq have "filter is_reply_create (trace (stream_handler env req)) = []" by simp
    with c q show ?thesis by blast
  next
    case d
    with err nq show ?thesis by (simp add: list_ex_append)
  next
    case p
    with err nq show ?thesis by (simp add: list_ex_append)
  next
    case n
    with err nq show ?thesis by (simp add: list_ex_append)
  qed
qed

theorem error_path_saves_nothing_witness:
  "list_ex is_error_write
     (trace (stream_handler (demo_env [hello_line @ [LF] @ world_line] (Some (js ''aborted'')) (\<lambda>tr. False))
        demo_request)) \<and>
   fullReply (stream_handler (demo_env [hello_line @ [LF] @ world_line] (Some (js ''aborted'')) (\<lambda>tr. False))
        demo_request) = js ''Hello '' \<and>
   filter is_reply_create
     (trace (stream_handler (demo_env [hello_line @ [LF] @ world_line] (Some (js ''aborted'')) (\<lambda>tr. False))
        demo_request)) = []"
proof -
  have e: "list_ex is_error_write
     (trace (stream_handler (demo_env [hello_line @ [LF] @ world_line] (Some (js ''aborted'')) (\<lambda>tr. False))
        demo_request))"
    by code_simp
  have f: "fullReply (stream_handler (demo_env [hello_line @ [LF] @ world_line] (Some (js ''aborted'')) (\<lambda>tr. False))
        demo_request) = js ''Hello ''"
    by code_simp
  from error_path_saves_nothing [of "demo_env [hello_line @ [LF] @ world_line] (Some (js ''aborted'')) (\<lambda>tr. False)" demo_request] e f
  show ?thesis by blast
qed

text \<open>
  C2, as stated, fails: on the error path the reply is not written at all, although
  FullReply is not empty and an error occurred. With two tokens delivered before the body
  raises, FullReply is \<open>Hello world\<close> and the store receives only the user's message.
\<close>

theorem reply_write_missing_on_error:
  "fullReply (stream_handler
      (demo_env [hello_line @ [LF], world_line @ [LF]] (Some (js ''terminated'')) (\<lambda>tr. False))
      demo_request) = js ''Hello world'' \<and>
   length (filter is_reply_create (trace (stream_handler
      (demo_env [hello_line @ [LF], world_line @ [LF]] (Some (js ''terminated'')) (\<lambda>tr. False))
      demo_request))) = 0 \<and>
   trace (stream_handler
      (demo_env [hello_line @ [LF], world_line @ [LF]] (Some (js ''terminated'')) (\<lambda>tr. False))
      demo_request)
     = [Create (user_message (js ''hi'') (js ''eng'')), Fetch,
        Write (Token (js ''Hello '') (js ''en-US'')),
        Write (Token (js ''world'') (js ''en-US'')),
        LogError (js ''terminated''),
        Write (ErrorEvent (js ''terminated'')), End]"
  by code_simp

text \<open>
  C2, amended. In every session the assistant's reply is written to the message store at
  most once, and what is written is FullReply. In a session in which no error event is
  written (it ended at a done record or at the end of the body) the write happens exactly
  once if FullReply is not empty, and is skipped if FullReply is empty; in a session in
  which an error event is written, the reply is not written.
\<close>

theorem reply_saved_at_most_once:
  "length (filter is_reply_create (trace (stream_handler env req))) \<le> 1 \<and>
   list_all (\<lambda>e. case e of Create m \<Rightarrow> m_text m = fullReply (stream_handler env req) | _ \<Rightarrow> True)
     (filter is_reply_create (trace (stream_handler env req))) \<and>
   (list_ex is_error_write (trace (stream_handler env req)) \<longrightarrow>
      filter is_reply_create (trace (stream_handler env req)) = []) \<and>
   (\<not> list_ex is_error_write (trace (stream_handler env req)) \<longrightarrow>
      (length (filter is_reply_create (trace (stream_handler env req))) = 1
         \<longleftrightarrow> fullReply (stream_handler env req) \<noteq> []))"
proof -
  let ?st = "stream_handler env req"
  from session_trace [of env req] obtain xs where q: "list_all quiet xs" and
    alt: "(\<exists>e. trace ?st = xs @ [Write (ErrorEvent e), End] \<and> fullReply ?st = [] \<and> xs = []) \<or>
      (\<exists>e e'. trace ?st = xs @ [LogError e, Write (ErrorEvent e'), End]) \<or>
      (\<exists>a. m_role a = Assistant \<and> m_text a = fullReply ?st \<and> fullReply ?st \<noteq> [] \<and>
           trace ?st = xs @ [Create a, Write DoneEvent, End]) \<or>
      (\<exists>a. m_role a = Assistant \<and> m_text a = fullReply ?st \<and> fullReply ?st \<noteq> [] \<and>
           trace ?st = xs @ [Create a, End]) \<or>
      (fullReply ?st = [] \<and> trace ?st = xs @ [End])"
    by blast
  note nq = no_error_quiet [OF q] filter_reply_quiet [OF q]
  from alt consider
      (g) e where "trace ?st = xs @ [Write (ErrorEvent e), End]"
    | (c) e e' where "trace ?st = xs @ [LogError e, Write (ErrorEvent e'), End]"
    | (d) a where "m_role a = Assistant" "m_text a = fullReply ?st" "fullReply ?st \<noteq> []"
        "trace ?st = xs @ [Create a, Write DoneEvent, End]"
    | (p) a where "m_role a = Assistant" "m_text a = fullReply ?st" "fullReply ?st \<noteq> []"
        "trace ?st = xs @ [Create a, End]"
    | (n) "fullReply ?st = []" "trace ?st = xs @ [End]"
    by blast
  then show ?thesis
  proof cases
    case g
    with nq show ?thesis by (simp add: list_ex_append)
  next
    case c
    with nq show ?thesis by (simp add: list_ex_append)
  next
    case d
    with nq show ?thesis by (simp add: list_ex_append)
  next
    case p
    with nq show ?thesis by (simp add: list_ex_append)
  next
    case n
    with nq show ?thesis by (simp add: list_ex_append)
  qed
qed

theorem reply_saved_at_most_once_witness:
  "trace (stream_handler
      (demo_env [hello_line @ [LF] @ world_line @ [LF] @ done_line @ [LF]] None (\<lambda>tr. False))
      demo_request)
     = [Create (user_message (js ''hi'') (js ''eng'')), Fetch,
        Write (Token (js ''Hello '') (js ''en-US'')),
        Write (Token (js ''world'') (js ''en-US'')),
        Write (SentencePartial (js ''Hello world'') (js ''en-US'')),
        Create \<lparr>m_text = js ''Hello world'', m_role = Assistant, m_language = js ''eng''\<rparr>,
        Write DoneEvent, End] \<and>
   length (filter is_reply_create (trace (stream_handler
      (demo_env [hello_line @ [LF] @ world_line @ [LF] @ done_line @ [LF]] None (\<lambda>tr. False))
      demo_request))) = 1 \<and>
   trace (stream_handler (demo_env [done_line @ [LF]] None (\<lambda>tr. False)) demo_request)
     = [Create (user_message (js ''hi'') (js ''eng'')), Fetch,
        CreateRaised \<lparr>m_text = [], m_role = Assistant, m_language = js ''eng''\<rparr>,
        Warn done_line, End] \<and>
   fullReply (stream_handler (demo_env [done_line @ [LF]] None (\<lambda>tr. False)) demo_request) = [] \<and>
   length (filter is_reply_create
     (trace (stream_handler (demo_env [done_line @ [LF]] None (\<lambda>tr. False)) demo_request))) \<noteq> 1 \<and>
   list_ex is_error_write
     (trace (stream_handler (demo_env [hello_line @ [LF]] (Some (js ''reset'')) (\<lambda>tr. False)) demo_request)) \<and>
   filter is_reply_create
     (trace (stream_handler (demo_env [hello_line @ [LF]] (Some (js ''reset'')) (\<lambda>tr. False)) demo_request)) = []"
proof -
  let ?full = "demo_env [hello_line @ [LF] @ world_line @ [LF] @ done_line @ [LF]] None (\<lambda>tr. False)"
  let ?bare = "demo_env [done_line @ [LF]] None (\<lambda>tr. False)"
  let ?fail = "demo_env [hello_line @ [LF]] (Some (js ''reset'')) (\<lambda>tr. False)"
  have d: "trace (stream_handler ?full demo_request)
     = [Create (user_message (js ''hi'') (js ''eng'')), Fetch,
        Write (Token (js ''Hello '') (js ''en-US'')),
        Write (Token (js ''world'') (js ''en-US'')),
        Write (SentencePartial (js ''Hello world'') (js ''en-US'')),
        Create \<lparr>m_text = js ''Hello world'', m_role = Assistant, m_language = js ''eng''\<rparr>,
        Write DoneEvent, End]"
    by code_simp
  have d1: "\<not> list_ex is_error_write (trace (stream_handler ?full demo_request))"
    "fullReply (stream_handler ?full demo_request) \<noteq> []"
    by code_simp+
  have b: "trace (stream_handler ?bare demo_request)
     = [Create (user_message (js ''hi'') (js ''eng'')), Fetch,
        CreateRaised \<lparr>m_text = [], m_role = Assistant, m_language = js ''eng''\<rparr>,
        Warn done_line, End]"
    by code_simp
  have b1: "\<not> list_ex is_error_write (trace (stream_handler ?bare demo_request))"
    "fullReply (stream_handler ?bare demo_request) = []"
    by code_simp+
  have e: "list_ex is_error_write (trace (stream_handler ?fail demo_request))"
    by code_simp
  from reply_saved_at_most_once [of ?full demo_request] d1
  have D: "length (filter is_reply_create (trace (stream_handler ?full demo_request))) = 1"
    by blast
  from reply_saved_at_most_once [of ?bare demo_request] b1
  have B: "length (filter is_reply_create (trace (stream_handler ?bare demo_request))) \<noteq> 1"
    by blast
  from reply_saved_at_most_once [of ?fail demo_request] e
  have E: "filter is_reply_create (trace (stream_handler ?fail demo_request)) = []"
    by blast
  from d D b b1(2) B e E show ?thesis by blast
qed

subsection \<open>Malformed records\<close>

text \<open>
  C5. When no write to the channel raises: for every sequence of records of which each
  either does not parse or parses to a token without the done flag, the loop runs through
  the whole sequence without returning or raising; FullReply grows by the concatenation of
  the token texts of the records that parse, in their order; and the variables and the
  events written to the channel are the same as if the records that do not parse had not
  been there. (A record that does not parse leaves a warning in the log and nothing else.)
\<close>

theorem malformed_records_skipped:
  assumes "\<forall>tr. \<not> write_raises env tr"
    and "list_all (\<lambda>part. malformed env part \<or> token_bearing env part) parts"
  shows "snd (handle_parts env lang st parts) = Continue \<and>
    fullReply (fst (handle_parts env lang st parts))
      = fullReply st @ concat (map (token_text env) (filter (token_bearing env) parts)) \<and>
    same_channel (fst (handle_parts env lang st parts))
      (fst (handle_parts env lang st (filter (token_bearing env) parts)))"
  using handle_parts_skip [OF assms, of st st lang] by simp

theorem malformed_records_skipped_witness:
  "list_all (\<lambda>part. malformed (demo_env [] None (\<lambda>tr. False)) part \<or>
                    token_bearing (demo_env [] None (\<lambda>tr. False)) part)
     [hello_line, js ''{oops'', world_line] \<and>
   malformed (demo_env [] None (\<lambda>tr. False)) (js ''{oops'') \<and>
   snd (handle_parts (demo_env [] None (\<lambda>tr. False)) (js ''eng'', js ''en-US'') init_state
          [hello_line, js ''{oops'', world_line]) = Continue \<and>
   fullReply (fst (handle_parts (demo_env [] None (\<lambda>tr. False)) (js ''eng'', js ''en-US'') init_state
          [hello_line, js ''{oops'', world_line])) = js ''Hello world'' \<and>
   trace (fst (handle_parts (demo_env [] None (\<lambda>tr. False)) (js ''eng'', js ''en-US'') init_state
          [hello_line, js ''{oops'', world_line]))
     = [Write (Token (js ''Hello '') (js ''en-US'')), Warn (js ''{oops''),
        Write (Token (js ''world'') (js ''en-US''))]"
proof -
  let ?env = "demo_env [] None (\<lambda>tr. False)"
  have nr: "\<forall>tr. \<not> write_raises ?env tr" by (simp add: demo_env_def)
  have ps: "list_all (\<lambda>part. malformed ?env part \<or> token_bearing ?env part)
     [hello_line, js ''{oops'', world_line]"
    by code_simp
  have m: "malformed ?env (js ''{oops'')" by code_simp
  have f: "filter (token_bearing ?env) [hello_line, js ''{oops'', world_line] = [hello_line, world_line]"
    by code_simp
  have t: "token_text ?env hello_line = js ''Hello ''" "token_text ?env world_line = js ''world''"
    by code_simp+
  have tr: "trace (fst (handle_parts ?env (js ''eng'', js ''en-US'') init_state
          [hello_line, js ''{oops'', world_line]))
     = [Write (Token (js ''Hello '') (js ''en-US'')), Warn (js ''{oops''),
        Write (Token (js ''world'') (js ''en-US''))]"
    by code_simp
  have i: "fullReply init_state = []" by (simp add: init_state_def)
  have j: "js ''Hello '' @ js ''world'' = js ''Hello world''" by (simp add: js_def)
  have rhs: "fullReply init_state @ concat (map (token_text ?env)
      (filter (token_bearing ?env) [hello_line, js ''{oops'', world_line])) = js ''Hello world''"
    unfolding f by (simp add: t i j)
  note th = malformed_records_skipped [OF nr ps, of "(js ''eng'', js ''en-US'')" init_state]
  from th have c: "snd (handle_parts ?env (js ''eng'', js ''en-US'') init_state
          [hello_line, js ''{oops'', world_line]) = Continue"
    by blast
  from th have "fullReply (fst (handle_parts ?env (js ''eng'', js ''en-US'') init_state
          [hello_line, js ''{oops'', world_line]))
      = fullReply init_state @ concat (map (token_text ?env)
          (filter (token_bearing ?env) [hello_line, js ''{oops'', world_line]))"
    by blast
  then have r: "fullReply (fst (handle_parts ?env (js ''eng'', js ''en-US'') init_state
          [hello_line, js ''{oops'', world_line])) = js ''Hello world''"
    by (simp only: rhs)
  from ps m c r tr show ?thesis by blast
qed

subsection \<open>The unterminated rest of the body\<close>

text \<open>
  C9. At the end of the body, which is reached only when the handler has not returned at a
  done record, when the buffer holds an unterminated rest: if the rest parses and has a
  response text, and the write of its token does not raise, then the token event is the
  next event written, the text is appended to FullReply, and the save that follows is
  issued with the extended FullReply (and succeeds whenever the store does not reject it);
  if the rest does not parse, the handler goes on exactly as if the buffer had been empty,
  and nothing is logged as malformed.
\<close>

theorem trailing_fragment:
  "(buffer st \<noteq> [] \<and> JSON_parse env (buffer st) = Some p \<and> p_response p \<noteq> [] \<and>
      \<not> write_raises env (trace st) \<longrightarrow>
      take (Suc (length (trace st))) (trace (end_of_stream env lang st))
        = trace st @ [Write (Token (p_response p) (snd lang))] \<and>
      fullReply (end_of_stream env lang st) = fullReply st @ p_response p \<and>
      (Create \<lparr>m_text = fullReply st @ p_response p, m_role = Assistant, m_language = fst lang\<rparr>
           \<in> set (trace (end_of_stream env lang st)) \<or>
       CreateRaised \<lparr>m_text = fullReply st @ p_response p, m_role = Assistant, m_language = fst lang\<rparr>
           \<in> set (trace (end_of_stream env lang st))) \<and>
      ((\<forall>tr. create_raises env tr = None) \<longrightarrow>
         Create \<lparr>m_text = fullReply st @ p_response p, m_role = Assistant, m_language = fst lang\<rparr>
           \<in> set (trace (end_of_stream env lang st)))) \<and>
   (buffer st \<noteq> [] \<and> JSON_parse env (buffer st) = None \<longrightarrow>
      end_of_stream env lang st = (end_of_stream env lang (st\<lparr>buffer := []\<rparr>))\<lparr>buffer := buffer st\<rparr> \<and>
      list_all (\<lambda>e. \<not> is_warn e) (drop (length (trace st)) (trace (end_of_stream env lang st))))"
  using end_of_stream_token [of st env p lang] end_of_stream_unparsed [of env st lang]
    end_of_stream_no_warn [of env st lang]
  by blast

theorem trailing_fragment_witness:
  "trace (stream_handler (demo_env [hello_line @ [LF] @ world_line] None (\<lambda>tr. False)) demo_request)
     = [Create (user_message (js ''hi'') (js ''eng'')), Fetch,
        Write (Token (js ''Hello '') (js ''en-US'')),
        Write (Token (js ''world'') (js ''en-US'')),
        Write (SentencePartial (js ''Hello world'') (js ''en-US'')),
        Create \<lparr>m_text = js ''Hello world'', m_role = Assistant, m_language = js ''eng''\<rparr>,
        End] \<and>
   fullReply (end_of_stream (demo_env [] None (\<lambda>tr. False)) (js ''eng'', js ''en-US'')
       \<lparr>buffer = world_line, fullReply = js ''Hello '', speechBuffer = js ''Hello '', trace = []\<rparr>)
     = js ''Hello '' @ js ''world'' \<and>
   Create \<lparr>m_text = js ''Hello '' @ js ''world'', m_role = Assistant, m_language = js ''eng''\<rparr>
     \<in> set (trace (end_of_stream (demo_env [] None (\<lambda>tr. False)) (js ''eng'', js ''en-US'')
       \<lparr>buffer = world_line, fullReply = js ''Hello '', speechBuffer = js ''Hello '', trace = []\<rparr>)) \<and>
   trace (end_of_stream (demo_env [] None (\<lambda>tr. False)) (js ''eng'', js ''en-US'')
       \<lparr>buffer = js ''{resp'', fullReply = js ''Hello '', speechBuffer = [], trace = []\<rparr>)
     = [Create \<lparr>m_text = js ''Hello '', m_role = Assistant, m_language = js ''eng''\<rparr>, End]"
proof -
  let ?env = "demo_env [] None (\<lambda>tr. False)"
  let ?lang = "(js ''eng'', js ''en-US'')"
  let ?st = "\<lparr>buffer = world_line, fullReply = js ''Hello '', speechBuffer = js ''Hello '', trace = []\<rparr>"
  let ?p = "\<lparr>p_response = js ''world'', p_done = False\<rparr>"
  let ?su = "\<lparr>buffer = js ''{resp'', fullReply = js ''Hello '', speechBuffer = [], trace = []\<rparr>"
  have session: "trace (stream_handler (demo_env [hello_line @ [LF] @ world_line] None (\<lambda>tr. False)) demo_request)
     = [Create (user_message (js ''hi'') (js ''eng'')), Fetch,
        Write (Token (js ''Hello '') (js ''en-US'')),
        Write (Token (js ''world'') (js ''en-US'')),
        Write (SentencePartial (js ''Hello world'') (js ''en-US'')),
        Create \<lparr>m_text = js ''Hello world'', m_role = Assistant, m_language = js ''eng''\<rparr>,
        End]"
    by code_simp
  have h1: "buffer ?st \<noteq> [] \<and> JSON_parse ?env (buffer ?st) = Some ?p \<and> p_response ?p \<noteq> [] \<and>
      \<not> write_raises ?env (trace ?st)"
    by (simp add: demo_env_def demo_parse_def world_line_def js_def)
  have c: "\<forall>tr. create_raises ?env tr = None" by (simp add: demo_env_def)
  have h2: "buffer ?su \<noteq> [] \<and> JSON_parse ?env (buffer ?su) = None"
    by (simp add: demo_env_def demo_parse_def js_def)
  have u: "trace (end_of_stream ?env ?lang ?su)
     = [Create \<lparr>m_text = js ''Hello '', m_role = Assistant, m_language = js ''eng''\<rparr>, End]"
    by code_simp
  from trailing_fragment [of ?st ?env ?p ?lang] h1 c
  have "fullReply (end_of_stream ?env ?lang ?st) = js ''Hello '' @ js ''world'' \<and>
    Create \<lparr>m_text = js ''Hello '' @ js ''world'', m_role = Assistant, m_language = js ''eng''\<rparr>
      \<in> set (trace (end_of_stream ?env ?lang ?st))"
    by simp
  with session u show ?thesis by simp
qed

subsection \<open>Writes that raise on a token or sentence-group event\<close>

text \<open>
  C7, as stated, fails in its first half: a write of a sentence-group event that raises is
  swallowed by an empty \<^verbatim>\<open>catch\<close>, and nothing is logged. In the session below the write of
  the sentence_partial event raises; the session goes on to save the reply and to write the
  done event, and its effects contain no log entry at all.
\<close>

theorem group_write_exception_not_logged:
  "trace (stream_handler
      (demo_env [hello_line @ [LF] @ world_line @ [LF] @ done_line @ [LF]] None (\<lambda>tr. length tr = 4))
      demo_request)
     = [Create (user_message (js ''hi'') (js ''eng'')), Fetch,
        Write (Token (js ''Hello '') (js ''en-US'')),
        Write (Token (js ''world'') (js ''en-US'')),
        WriteRaised (SentencePartial (js ''Hello world'') (js ''en-US'')),
        Create \<lparr>m_text = js ''Hello world'', m_role = Assistant, m_language = js ''eng''\<rparr>,
        Write DoneEvent, End] \<and>
   filter is_log (trace (stream_handler
      (demo_env [hello_line @ [LF] @ world_line @ [LF] @ done_line @ [LF]] None (\<lambda>tr. length tr = 4))
      demo_request)) = []"
  by code_simp

text \<open>
  C7, amended. A write that raises on a token or sentence-group event never leads to the
  session-fatal error path, and the stream is processed further:
  \<^item> when the write of a token event raises in the record loop, the loop's \<^verbatim>\<open>catch\<close> logs it
    with the line and the loop goes on with the next record (the token's text is then not
    appended, and the record's done flag is not looked at);
  \<^item> when the token's write returns, the writes of the sentence-group events that follow
    may raise without any effect but on the channel: nothing is logged, the token step
    completes, and FullReply and the speech buffer are as if the writes had returned;
  \<^item> when the write of the flushed group raises, nothing is logged and the speech buffer
    is reset all the same;
  \<^item> when the write of the token of the unterminated rest of the body raises, nothing is
    logged and nothing is appended;
  \<^item> in a session in which nothing else fails, whichever of these writes raise, no error
    event is written and no error is logged, and the response is ended as the last effect.
\<close>

theorem write_exceptions_not_fatal:
  "(trim part \<noteq> [] \<and> JSON_parse env (trim part) = Some p \<and> p_response p \<noteq> [] \<and>
      write_raises env (trace st) \<longrightarrow>
      handle_part env lang st part =
        (emit (Warn (trim part)) (emit (WriteRaised (Token (p_response p) (snd lang))) st), Continue)) \<and>
   (\<not> write_raises env (trace st) \<longrightarrow>
      snd (token_step env l r st) = False \<and>
      fullReply (fst (token_step env l r st)) = fullReply st @ r \<and>
      speechBuffer (fst (token_step env l r st)) = snd (absorb (speechBuffer st) r) \<and>
      list_all (\<lambda>e. \<not> is_log e) (drop (length (trace st)) (trace (fst (token_step env l r st))))) \<and>
   (fst (flush (speechBuffer st)) = Some g \<and> write_raises env (trace st) \<longrightarrow>
      flush_step env l st = (emit (WriteRaised (SentencePartial g l)) st)\<lparr>speechBuffer := []\<rparr>) \<and>
   (buffer st \<noteq> [] \<and> JSON_parse env (buffer st) = Some p \<and> p_response p \<noteq> [] \<and>
      write_raises env (trace st) \<longrightarrow>
      trailing_step env l st = emit (WriteRaised (Token (p_response p) l)) st) \<and>
   (prompt req = Some userText \<and> \<not> list_all is_ws userText \<and>
    language_result env = Returns lang \<and> save_user_raises env = None \<and>
    context_raises env = None \<and> fetch_result env = Body chunks None \<and>
    (\<forall>tr. create_raises env tr = None) \<longrightarrow>
      \<not> list_ex is_error_write (trace (stream_handler env req)) \<and>
      list_all (\<lambda>e. case e of LogError m \<Rightarrow> False | _ \<Rightarrow> True) (trace (stream_handler env req)) \<and>
      closed_last (trace (stream_handler env req)))"
proof (intro conjI impI)
  assume "trim part \<noteq> [] \<and> JSON_parse env (trim part) = Some p \<and> p_response p \<noteq> [] \<and>
      write_raises env (trace st)"
  then show "handle_part env lang st part =
        (emit (Warn (trim part)) (emit (WriteRaised (Token (p_response p) (snd lang))) st), Continue)"
    by (simp add: handle_part_token_raised)
next
  assume nr: "\<not> write_raises env (trace st)"
  from token_step_written [OF nr, of l r]
  show "snd (token_step env l r st) = False"
    and "fullReply (fst (token_step env l r st)) = fullReply st @ r"
    and "speechBuffer (fst (token_step env l r st)) = snd (absorb (speechBuffer st) r)"
    and "list_all (\<lambda>e. \<not> is_log e) (drop (length (trace st)) (trace (fst (token_step env l r st))))"
    by blast+
next
  assume "fst (flush (speechBuffer st)) = Some g \<and> write_raises env (trace st)"
  then show "flush_step env l st = (emit (WriteRaised (SentencePartial g l)) st)\<lparr>speechBuffer := []\<rparr>"
    by (simp add: flush_step_raised)
next
  assume "buffer st \<noteq> [] \<and> JSON_parse env (buffer st) = Some p \<and> p_response p \<noteq> [] \<and>
      write_raises env (trace st)"
  then show "trailing_step env l st = emit (WriteRaised (Token (p_response p) l)) st"
    by (simp add: trailing_step_def)
next
  assume a: "prompt req = Some userText \<and> \<not> list_all is_ws userText \<and>
    language_result env = Returns lang \<and> save_user_raises env = None \<and>
    context_raises env = None \<and> fetch_result env = Body chunks None \<and>
    (\<forall>tr. create_raises env tr = None)"
  then have "stream_handler env req = stream_body env (trim userText)"
    by (simp add: stream_handler_def trim_Nil_ws)
  moreover from a have "closes False init_state (stream_body env (trim userText))"
    by (intro stream_body_no_failure [of env lang chunks]) simp_all
  ultimately have c: "closes False init_state (stream_handler env req)" by simp
  from no_failure_trace [OF c]
  show "\<not> list_ex is_error_write (trace (stream_handler env req))"
    and "list_all (\<lambda>e. case e of LogError m \<Rightarrow> False | _ \<Rightarrow> True) (trace (stream_handler env req))"
    and "closed_last (trace (stream_handler env req))"
    by blast+
qed

theorem write_exceptions_not_fatal_witness:
  "handle_part (demo_env [] None (\<lambda>tr. True)) (js ''eng'', js ''en-US'') init_state hello_line
     = (emit (Warn hello_line) (emit (WriteRaised (Token (js ''Hello '') (js ''en-US''))) init_state),
        Continue) \<and>
   trace (fst (token_step (demo_env [] None (\<lambda>tr. tr \<noteq> [])) (js ''en-US'') (js ''a b c d e f g h'')
       init_state))
     = [Write (Token (js ''a b c d e f g h'') (js ''en-US'')),
        WriteRaised (SentencePartial (js ''a b c d e f g h'') (js ''en-US''))] \<and>
   fullReply (fst (token_step (demo_env [] None (\<lambda>tr. tr \<noteq> [])) (js ''en-US'') (js ''a b c d e f g h'')
       init_state)) = js ''a b c d e f g h'' \<and>
   flush_step (demo_env [] None (\<lambda>tr. True)) (js ''en-US'') (init_state\<lparr>speechBuffer := js ''hi''\<rparr>)
     = (emit (WriteRaised (SentencePartial (js ''hi'') (js ''en-US'')))
         (init_state\<lparr>speechBuffer := js ''hi''\<rparr>))\<lparr>speechBuffer := []\<rparr> \<and>
   trailing_step (demo_env [] None (\<lambda>tr. True)) (js ''en-US'') (init_state\<lparr>buffer := world_line\<rparr>)
     = emit (WriteRaised (Token (js ''world'') (js ''en-US''))) (init_state\<lparr>buffer := world_line\<rparr>) \<and>
   trace (stream_handler
      (demo_env [hello_line @ [LF] @ world_line @ [LF] @ done_line @ [LF]] None (\<lambda>tr. True))
      demo_request)
     = [Create (user_message (js ''hi'') (js ''eng'')), Fetch,
        WriteRaised (Token (js ''Hello '') (js ''en-US'')), Warn hello_line,
        WriteRaised (Token (js ''world'') (js ''en-US'')), Warn world_line,
        CreateRaised \<lparr>m_text = [], m_role = Assistant, m_language = js ''eng''\<rparr>,
        Warn done_line, End] \<and>
   \<not> list_ex is_error_write (trace (stream_handler
      (demo_env [hello_line @ [LF] @ world_line @ [LF] @ done_line @ [LF]] None (\<lambda>tr. True))
      demo_request))"
proof -
  let ?all = "demo_env [] None (\<lambda>tr. True)"
  let ?later = "demo_env [] None (\<lambda>tr. tr \<noteq> [])"
  let ?chunks = "[hello_line @ [LF] @ world_line @ [LF] @ done_line @ [LF]]"
  let ?env = "demo_env ?chunks None (\<lambda>tr. True)"
  let ?lang = "(js ''eng'', js ''en-US'')"
  let ?p = "\<lparr>p_response = js ''Hello '', p_done = False\<rparr>"
  let ?sb = "init_state\<lparr>speechBuffer := js ''hi''\<rparr>"
  let ?tb = "init_state\<lparr>buffer := world_line\<rparr>"
  let ?q = "\<lparr>p_response = js ''world'', p_done = False\<rparr>"
  have h1: "trim hello_line \<noteq> [] \<and> JSON_parse ?all (trim hello_line) = Some ?p \<and>
      p_response ?p \<noteq> [] \<and> write_raises ?all (trace init_state)"
    by code_simp
  have t1: "trim hello_line = hello_line" by code_simp
  have h2: "\<not> write_raises ?later (trace init_state)"
    by (simp add: demo_env_def init_state_def)
  have t2: "trace (fst (token_step ?later (js ''en-US'') (js ''a b c d e f g h'') init_state))
     = [Write (Token (js ''a b c d e f g h'') (js ''en-US'')),
        WriteRaised (SentencePartial (js ''a b c d e f g h'') (js ''en-US''))]"
    by code_simp
  have h3: "fst (flush (speechBuffer ?sb)) = Some (js ''hi'') \<and> write_raises ?all (trace ?sb)"
    by code_simp
  have h5: "buffer ?tb \<noteq> [] \<and> JSON_parse ?all (buffer ?tb) = Some ?q \<and> p_response ?q \<noteq> [] \<and>
      write_raises ?all (trace ?tb)"
    by code_simp
  have h4: "prompt demo_request = Some (js ''hi'') \<and> \<not> list_all is_ws (js ''hi'') \<and>
    language_result ?env = Returns ?lang \<and> save_user_raises ?env = None \<and>
    context_raises ?env = None \<and> fetch_result ?env = Body ?chunks None \<and>
    (\<forall>tr. create_raises ?env tr = None)"
    by (simp add: demo_env_def demo_request_def js_def is_ws_def)
  have t4: "trace (stream_handler ?env demo_request)
     = [Create (user_message (js ''hi'') (js ''eng'')), Fetch,
        WriteRaised (Token (js ''Hello '') (js ''en-US'')), Warn hello_line,
        WriteRaised (Token (js ''world'') (js ''en-US'')), Warn world_line,
        CreateRaised \<lparr>m_text = [], m_role = Assistant, m_language = js ''eng''\<rparr>,
        Warn done_line, End]"
    by code_simp
  have i: "fullReply init_state = []" by (simp add: init_state_def)
  note a = write_exceptions_not_fatal [where env = ?all and part = hello_line and p = ?p
      and st = init_state and lang = ?lang]
  note b = write_exceptions_not_fatal [where env = ?later and st = init_state
      and l = "js ''en-US''" and r = "js ''a b c d e f g h''"]
  note c = write_exceptions_not_fatal [where env = ?all and st = ?sb and g = "js ''hi''"
      and l = "js ''en-US''"]
  note d = write_exceptions_not_fatal [where env = ?env and req = demo_request
      and userText = "js ''hi''" and lang = ?lang and chunks = ?chunks]
  from a h1 have A: "handle_part ?all ?lang init_state hello_line
     = (emit (Warn hello_line) (emit (WriteRaised (Token (js ''Hello '') (js ''en-US''))) init_state), Continue)"
    by (simp add: t1)
  from b h2 have B: "fullReply (fst (token_step ?later (js ''en-US'') (js ''a b c d e f g h'') init_state))
     = js ''a b c d e f g h''"
    by (simp add: i)
  from c h3 have C: "flush_step ?all (js ''en-US'') ?sb
     = (emit (WriteRaised (SentencePartial (js ''hi'') (js ''en-US''))) ?sb)\<lparr>speechBuffer := []\<rparr>"
    by blast
  note e = write_exceptions_not_fatal [where env = ?all and st = ?tb and p = ?q
      and l = "js ''en-US''"]
  from e h5 have E: "trailing_step ?all (js ''en-US'') ?tb
     = emit (WriteRaised (Token (js ''world'') (js ''en-US''))) ?tb"
    by simp
  from d h4 have D: "\<not> list_ex is_error_write (trace (stream_handler ?env demo_request))"
    by blast
  from A t2 B C E t4 D show ?thesis by blast
qed

end
